theory Spec2Isabelle
  imports Complex_Main "HOL-Library.Word" "HOL-Library.AList"
begin

section \<open>Data of the proxy\<close>

text \<open>
  The program is \<^verbatim>\<open>src/server.js\<close>. A Node \<^verbatim>\<open>Buffer\<close> is a list of octets. A header
  object (\<^verbatim>\<open>req.headers\<close>, \<^verbatim>\<open>rr.headers\<close>) is an association list in enumeration order;
  Node's HTTP parser gives each name once, with a string value or, for repeatable
  headers such as \<^verbatim>\<open>set-cookie\<close>, an array of strings. Text (store keys, store values,
  header names and values) is a \<^typ>\<open>string\<close>: a sequence of code units below 256, which
  is what the HTTP parser produces.
\<close>

type_synonym Buffer = "8 word list"

datatype hval = HStr string | HArr "string list"

type_synonym headers = "(string \<times> hval) list"

text \<open>
  The inbound request \<^verbatim>\<open>req\<close>, as far as the API pipeline reads it; \<open>req_method\<close> is
  \<^verbatim>\<open>req.method\<close>.
\<close>

record request =
  req_method :: string
  url :: string
  headers :: headers

text \<open>The options object handed to \<^verbatim>\<open>makeRequest\<close> (lines 149 to 156).\<close>

record options =
  opt_method :: string
  opt_url :: string
  opt_body :: "Buffer option"
  opt_headers :: headers
  opt_encoding :: "string option"
  opt_timeout :: nat

text \<open>The origin's answer \<^verbatim>\<open>rr\<close>; with \<^verbatim>\<open>encoding: null\<close> its body is a Buffer.\<close>

record response =
  res_statusCode :: nat
  res_headers :: headers
  res_body :: Buffer

text \<open>\<^verbatim>\<open>cacheObj\<close> (lines 168 to 172).\<close>

record cacheObj =
  statusCode :: nat
  cache_headers :: headers
  content :: Buffer

text \<open>
  Thrown values. \<open>Error m\<close> is \<^verbatim>\<open>new Error(m)\<close>, also the error a failed origin request
  rejects with; \<open>SyntaxError\<close> and \<open>TypeError\<close> are the engine's own, whose messages are
  none of the three the pipeline switches on.
\<close>

datatype exn = Error string | SyntaxError | TypeError

section \<open>Header Sanitizer\<close>

text \<open>
  \<^verbatim>\<open>removeProxyHeaders\<close> (lines 217 to 231): the \<^verbatim>\<open>for ... in\<close> loop copies every
  property into a fresh object (\<^verbatim>\<open>headers[key] = origin[key]\<close>, where \<^verbatim>\<open>origin[key]\<close> is
  defined for every enumerated key), then eight \<^verbatim>\<open>delete\<close> statements follow.
\<close>

definition removeProxyHeaders :: "headers \<Rightarrow> headers" where
  "removeProxyHeaders origin =
     (let headers = foldl (\<lambda>h key. case map_of origin key of
                                          None \<Rightarrow> h
                                        | Some v \<Rightarrow> AList.update key v h)
                          [] (map fst origin);
          headers = AList.delete ''connection'' headers;
          headers = AList.delete ''proxy-connection'' headers;
          headers = AList.delete ''proxy-authenticate'' headers;
          headers = AList.delete ''proxy-authorization'' headers;
          headers = AList.delete ''host'' headers;
          headers = AList.delete ''content-length'' headers;
          headers = AList.delete ''cache-token'' headers;
          headers = AList.delete ''request-uri'' headers
      in headers)"

text \<open>The eight names the sanitizer deletes, and ASCII lower-casing of a header name.\<close>

definition proxyHeaders :: "string set" where
  "proxyHeaders = {''connection'', ''proxy-connection'', ''proxy-authenticate'',
     ''proxy-authorization'', ''host'', ''content-length'', ''cache-token'', ''request-uri''}"



section \<open>JSON\<close>

text \<open>
  \<^verbatim>\<open>JSON.parse\<close> and \<^verbatim>\<open>JSON.stringify\<close> are the engine's. They are modelled here after
  ECMA-404 and the ECMAScript algorithms, as far as the coordinator uses them: the parser
  accepts every JSON text over 8-bit code units, the serialiser is the one of a
  \<^verbatim>\<open>cacheObj\<close>. A JavaScript value is a \<open>jsval\<close>; its strings are sequences of UTF-16
  code units (an escape \<^verbatim>\<open>\uXXXX\<close> may denote one above 255), its numbers are the exact
  rationals that the numerals denote (JavaScript rounds them to doubles, which changes
  no integer of magnitude up to \<open>2^53\<close>), its objects are association lists in
  enumeration order.
\<close>

type_synonym jsstring = "nat list"

datatype jsval =
    JUndefined
  | JNull
  | JBool bool
  | JNum rat
  | JStr jsstring
  | JArr "jsval list"
  | JObj "(jsstring \<times> jsval) list"
  | JBuf Buffer

definition units :: "string \<Rightarrow> jsstring" where
  "units s = map of_char s"

subsection \<open>Lexical level\<close>

definition is_ws :: "char \<Rightarrow> bool" where
  "is_ws c = (c = CHR '' '' \<or> c = CHR 0x09 \<or> c = CHR 0x0A \<or> c = CHR 0x0D)"

definition skip_ws :: "string \<Rightarrow> string" where
  "skip_ws s = dropWhile is_ws s"

definition is_digit :: "char \<Rightarrow> bool" where
  "is_digit c = (48 \<le> (of_char c :: nat) \<and> (of_char c :: nat) \<le> 57)"

definition digit_val :: "char \<Rightarrow> nat" where
  "digit_val c = of_char c - 48"

definition nat_of_digits :: "string \<Rightarrow> nat" where
  "nat_of_digits ds = foldl (\<lambda>a c. 10 * a + digit_val c) 0 ds"

definition hex_val :: "char \<Rightarrow> nat option" where
  "hex_val c =
     (let n = of_char c :: nat in
      if 48 \<le> n \<and> n \<le> 57 then Some (n - 48)
      else if 97 \<le> n \<and> n \<le> 102 then Some (n - 87)
      else if 65 \<le> n \<and> n \<le> 70 then Some (n - 55)
      else None)"

definition unescape :: "char \<Rightarrow> nat option" where
  "unescape e =
     (if e = CHR 0x22 then Some 34
      else if e = CHR 0x5C then Some 92
      else if e = CHR ''/'' then Some 47
      else if e = CHR ''b'' then Some 8
      else if e = CHR ''f'' then Some 12
      else if e = CHR ''n'' then Some 10
      else if e = CHR ''r'' then Some 13
      else if e = CHR ''t'' then Some 9
      else None)"

fun parse_string :: "string \<Rightarrow> (jsstring \<times> string) option" where
  "parse_string [] = None"
| "parse_string (c # r) =
     (if c = CHR 0x22 then Some ([], r)
      else if c = CHR 0x5C then
        (case r of
           [] \<Rightarrow> None
         | e # r1 \<Rightarrow>
             if e = CHR ''u'' then
               (case r1 of
                  h1 # h2 # h3 # h4 # r2 \<Rightarrow>
                    (case (hex_val h1, hex_val h2, hex_val h3, hex_val h4) of
                       (Some a, Some b, Some c, Some d) \<Rightarrow>
                         map_option (apfst ((#) (4096 * a + 256 * b + 16 * c + d))) (parse_string r2)
                     | _ \<Rightarrow> None)
                | _ \<Rightarrow> None)
             else
               (case unescape e of
                  None \<Rightarrow> None
                | Some u \<Rightarrow> map_option (apfst ((#) u)) (parse_string r1)))
      else if (of_char c :: nat) < 32 then None
      else map_option (apfst ((#) (of_char c))) (parse_string r))"

definition parse_exponent :: "string \<Rightarrow> (int \<times> string) option" where
  "parse_exponent s =
     (case s of
        [] \<Rightarrow> Some (0, s)
      | c # r \<Rightarrow>
          if c = CHR ''e'' \<or> c = CHR ''E'' then
            (let (neg, r1) = (case r of
                                [] \<Rightarrow> (False, r)
                              | g # r' \<Rightarrow> if g = CHR ''-'' then (True, r')
                                          else if g = CHR ''+'' then (False, r')
                                          else (False, r));
                 ds = takeWhile is_digit r1
             in if ds = [] then None
                else Some ((if neg then - int (nat_of_digits ds) else int (nat_of_digits ds)),
                           dropWhile is_digit r1))
          else Some (0, s))"

definition parse_fraction :: "string \<Rightarrow> (rat \<times> string) option" where
  "parse_fraction s =
     (case s of
        [] \<Rightarrow> Some (0, s)
      | c # r \<Rightarrow>
          if c = CHR ''.'' then
            (let ds = takeWhile is_digit r
             in if ds = [] then None
                else Some (of_nat (nat_of_digits ds) / 10 ^ length ds, dropWhile is_digit r))
          else Some (0, s))"

definition parse_number :: "string \<Rightarrow> (jsval \<times> string) option" where
  "parse_number s =
     (let (neg, s1) = (case s of
                         [] \<Rightarrow> (False, s)
                       | c # r \<Rightarrow> if c = CHR ''-'' then (True, r) else (False, s));
          ds = takeWhile is_digit s1
      in if ds = [] \<or> (hd ds = CHR ''0'' \<and> tl ds \<noteq> []) then None
         else
           (case parse_fraction (dropWhile is_digit s1) of
              None \<Rightarrow> None
            | Some (f, s2) \<Rightarrow>
                (case parse_exponent s2 of
                   None \<Rightarrow> None
                 | Some (e, s3) \<Rightarrow>
                     (let m = of_nat (nat_of_digits ds) + f;
                          v = (if 0 \<le> e then m * 10 ^ nat e else m / 10 ^ nat (- e))
                      in Some (JNum (if neg then - v else v), s3)))))"

definition parse_literal :: "string \<Rightarrow> jsval \<Rightarrow> string \<Rightarrow> (jsval \<times> string) option" where
  "parse_literal w v s = (if take (length w) s = w then Some (v, drop (length w) s) else None)"

subsection \<open>Values\<close>

text \<open>
  A value that is a string, a literal name or a number, from its first character on. An
  array or an object descends into its parts; the first argument of \<open>parse_value\<close> bounds
  the depth of that descent, and \<open>JSON_parse\<close> starts with more than any text can use.
\<close>

definition parse_scalar :: "char \<Rightarrow> string \<Rightarrow> (jsval \<times> string) option" where
  "parse_scalar c r =
     (if c = CHR 0x22 then map_option (apfst JStr) (parse_string r)
      else if c = CHR ''t'' then parse_literal ''true'' (JBool True) (c # r)
      else if c = CHR ''f'' then parse_literal ''false'' (JBool False) (c # r)
      else if c = CHR ''n'' then parse_literal ''null'' JNull (c # r)
      else parse_number (c # r))"

fun parse_value :: "nat \<Rightarrow> string \<Rightarrow> (jsval \<times> string) option"
  and parse_elems :: "nat \<Rightarrow> jsval list \<Rightarrow> string \<Rightarrow> (jsval \<times> string) option"
  and parse_members :: "nat \<Rightarrow> (jsstring \<times> jsval) list \<Rightarrow> string \<Rightarrow> (jsval \<times> string) option"
where
  "parse_value 0 s = None"
| "parse_value (Suc n) s =
     (case skip_ws s of
        [] \<Rightarrow> None
      | c # r \<Rightarrow>
          if c = CHR ''['' then
            (case skip_ws r of
               [] \<Rightarrow> None
             | d # r1 \<Rightarrow> if d = CHR '']'' then Some (JArr [], r1) else parse_elems n [] r)
          else if c = CHR ''{'' then
            (case skip_ws r of
               [] \<Rightarrow> None
             | d # r1 \<Rightarrow> if d = CHR ''}'' then Some (JObj [], r1) else parse_members n [] r)
          else parse_scalar c r)"
| "parse_elems 0 acc s = None"
| "parse_elems (Suc n) acc s =
     (case parse_value n s of
        None \<Rightarrow> None
      | Some (v, r) \<Rightarrow>
          (case skip_ws r of
             [] \<Rightarrow> None
           | d # r1 \<Rightarrow>
               if d = CHR '','' then parse_elems n (acc @ [v]) r1
               else if d = CHR '']'' then Some (JArr (acc @ [v]), r1)
               else None))"
| "parse_members 0 acc s = None"
| "parse_members (Suc n) acc s =
     (case skip_ws s of
        [] \<Rightarrow> None
      | q # r \<Rightarrow>
          if q \<noteq> CHR 0x22 then None
          else
            (case parse_string r of
               None \<Rightarrow> None
             | Some (k, r1) \<Rightarrow>
                 (case skip_ws r1 of
                    [] \<Rightarrow> None
                  | c # r2 \<Rightarrow>
                      if c \<noteq> CHR '':'' then None
                      else
                        (case parse_value n r2 of
                           None \<Rightarrow> None
                         | Some (v, r3) \<Rightarrow>
                             (case skip_ws r3 of
                                [] \<Rightarrow> None
                              | d # r4 \<Rightarrow>
                                  if d = CHR '','' then parse_members n (AList.update k v acc) r4
                                  else if d = CHR ''}'' then Some (JObj (AList.update k v acc), r4)
                                  else None)))))"

definition JSON_parse :: "string \<Rightarrow> jsval option" where
  "JSON_parse text =
     (case parse_value (Suc (length text)) text of
        None \<Rightarrow> None
      | Some (v, r) \<Rightarrow> if skip_ws r = [] then Some v else None)"


subsection \<open>Serialisation\<close>

definition digit_char :: "nat \<Rightarrow> char" where
  "digit_char d = char_of (48 + d)"

fun show_nat :: "nat \<Rightarrow> string" where
  "show_nat n = (if n < 10 then [digit_char n] else show_nat (n div 10) @ [digit_char (n mod 10)])"

declare show_nat.simps [simp del]

definition hex_char :: "nat \<Rightarrow> char" where
  "hex_char d = (if d < 10 then char_of (48 + d) else char_of (87 + d))"

definition escape :: "char \<Rightarrow> string" where
  "escape c =
     (let n = of_char c :: nat in
      if n = 34 then [CHR 0x5C, CHR 0x22]
      else if n = 92 then [CHR 0x5C, CHR 0x5C]
      else if n = 8 then [CHR 0x5C, CHR ''b'']
      else if n = 12 then [CHR 0x5C, CHR ''f'']
      else if n = 10 then [CHR 0x5C, CHR ''n'']
      else if n = 13 then [CHR 0x5C, CHR ''r'']
      else if n = 9 then [CHR 0x5C, CHR ''t'']
      else if n < 32 then [CHR 0x5C, CHR ''u'', CHR ''0'', CHR ''0'', hex_char (n div 16), hex_char (n mod 16)]
      else [c])"

definition Quote :: "string \<Rightarrow> string" where
  "Quote s = CHR 0x22 # concat (map escape s) @ [CHR 0x22]"

fun join :: "string \<Rightarrow> string list \<Rightarrow> string" where
  "join sep [] = []"
| "join sep [x] = x"
| "join sep (x # y # ys) = x @ sep @ join sep (y # ys)"

text \<open>
  \<^verbatim>\<open>JSON.stringify(cacheObj)\<close>: the three properties in the order of the object literal,
  a header value as a string or an array of strings, the Buffer through its
  \<^verbatim>\<open>toJSON\<close> as \<^verbatim>\<open>{"type":"Buffer","data":[...]}\<close>.
\<close>

fun stringify_hval :: "hval \<Rightarrow> string" where
  "stringify_hval (HStr s) = Quote s"
| "stringify_hval (HArr xs) = ''['' @ join '','' (map Quote xs) @ '']''"

definition stringify_headers :: "headers \<Rightarrow> string" where
  "stringify_headers h =
     ''{'' @ join '','' (map (\<lambda>(k, v). Quote k @ '':'' @ stringify_hval v) h) @ ''}''"

definition stringify_Buffer :: "Buffer \<Rightarrow> string" where
  "stringify_Buffer b =
     ''{'' @ Quote ''type'' @ '':'' @ Quote ''Buffer'' @ '','' @ Quote ''data'' @ '':'' @
     ''['' @ join '','' (map (\<lambda>w. show_nat (unat w)) b) @ '']'' @ ''}''"

definition JSON_stringify :: "cacheObj \<Rightarrow> string" where
  "JSON_stringify c =
     ''{'' @ Quote ''statusCode'' @ '':'' @ show_nat (statusCode c) @ '','' @
     Quote ''headers'' @ '':'' @ stringify_headers (cache_headers c) @ '','' @
     Quote ''content'' @ '':'' @ stringify_Buffer (content c) @ ''}''"

text \<open>The \<^verbatim>\<open>cacheObj\<close> as the JavaScript value that \<^verbatim>\<open>makeAPIRequest\<close> returns.\<close>

fun js_of_hval :: "hval \<Rightarrow> jsval" where
  "js_of_hval (HStr s) = JStr (units s)"
| "js_of_hval (HArr xs) = JArr (map (\<lambda>s. JStr (units s)) xs)"

definition js_of_headers :: "headers \<Rightarrow> jsval" where
  "js_of_headers h = JObj (map (\<lambda>(k, v). (units k, js_of_hval v)) h)"

definition js_of_cacheObj :: "cacheObj \<Rightarrow> jsval" where
  "js_of_cacheObj c =
     JObj [(units ''statusCode'', JNum (of_nat (statusCode c))),
           (units ''headers'', js_of_headers (cache_headers c)),
           (units ''content'', JBuf (content c))]"

text \<open>
  The value that \<^verbatim>\<open>JSON.stringify\<close> serialises: the Buffer is replaced by what its
  \<^verbatim>\<open>toJSON\<close> returns.
\<close>

definition toJSON :: "Buffer \<Rightarrow> jsval" where
  "toJSON b =
     JObj [(units ''type'', JStr (units ''Buffer'')),
           (units ''data'', JArr (map (\<lambda>w. JNum (of_nat (unat w))) b))]"

definition json_of_cacheObj :: "cacheObj \<Rightarrow> jsval" where
  "json_of_cacheObj c =
     JObj [(units ''statusCode'', JNum (of_nat (statusCode c))),
           (units ''headers'', js_of_headers (cache_headers c)),
           (units ''content'', toJSON (content c))]"

section \<open>The runtime the pipeline runs against\<close>

text \<open>
  What lies outside the repository and cannot be fixed by a definition is a parameter:
  \<^item> \<open>form\<close> is \<^verbatim>\<open>querystring.parse(body.toString())\<close>, giving each field a string or,
    when the field is repeated, an array of strings;
  \<^item> \<open>buffer_other\<close> is \<^verbatim>\<open>new Buffer(x)\<close> for an argument that is neither an array of
    numbers nor \<^verbatim>\<open>undefined\<close> nor \<^verbatim>\<open>null\<close> (a size, a string, an object: the outcome
    depends on the Node version);
  \<^item> \<open>origin\<close> is the outcome of the outbound request for given options: an error (no
    connection, timeout) or the origin's response.
\<close>

datatype qsval = QStr string | QArr "string list"

record runtime =
  form :: "Buffer \<Rightarrow> (string \<times> qsval) list"
  buffer_other :: "jsval \<Rightarrow> exn + jsval"
  origin :: "options \<Rightarrow> exn + response"

section \<open>Decoding a stored payload\<close>

text \<open>
  A property read \<^verbatim>\<open>v.name\<close>. It throws on \<^verbatim>\<open>null\<close> and \<^verbatim>\<open>undefined\<close>. The pipeline
  reads only \<^verbatim>\<open>type\<close>, \<^verbatim>\<open>data\<close>, \<^verbatim>\<open>statusCode\<close>, \<^verbatim>\<open>headers\<close> and \<^verbatim>\<open>content\<close>, which no
  string, number, boolean, array or Buffer has.
\<close>

definition get :: "jsval \<Rightarrow> string \<Rightarrow> exn + jsval" where
  "get v name =
     (case v of
        JUndefined \<Rightarrow> Inl TypeError
      | JNull \<Rightarrow> Inl TypeError
      | JObj ps \<Rightarrow> (case map_of ps (units name) of None \<Rightarrow> Inr JUndefined | Some x \<Rightarrow> Inr x)
      | _ \<Rightarrow> Inr JUndefined)"

fun truthy :: "jsval \<Rightarrow> bool" where
  "truthy JUndefined = False"
| "truthy JNull = False"
| "truthy (JBool b) = b"
| "truthy (JNum q) = (q \<noteq> 0)"
| "truthy (JStr s) = (s \<noteq> [])"
| "truthy (JArr xs) = True"
| "truthy (JObj ps) = True"
| "truthy (JBuf b) = True"

text \<open>\<^verbatim>\<open>new Buffer(array)\<close> takes each number modulo 256, after truncation.\<close>

definition ToUint8 :: "rat \<Rightarrow> 8 word" where
  "ToUint8 q = word_of_int (if 0 \<le> q then \<lfloor>q\<rfloor> else \<lceil>q\<rceil>)"

fun octet :: "jsval \<Rightarrow> 8 word option" where
  "octet (JNum q) = Some (ToUint8 q)"
| "octet v = None"

definition newBuffer :: "runtime \<Rightarrow> jsval \<Rightarrow> exn + jsval" where
  "newBuffer E arg =
     (case arg of
        JUndefined \<Rightarrow> Inl TypeError
      | JNull \<Rightarrow> Inl TypeError
      | JArr xs \<Rightarrow>
          (case those (map octet xs) of
             Some bs \<Rightarrow> Inr (JBuf bs)
           | None \<Rightarrow> buffer_other E arg)
      | _ \<Rightarrow> buffer_other E arg)"

text \<open>
  The reviver of lines 132 and 133:
  \<^verbatim>\<open>(key, value) => (value && value.type === 'Buffer') ? new Buffer(value.data) : value\<close>.
\<close>

definition reviver :: "runtime \<Rightarrow> jsval \<Rightarrow> exn + jsval" where
  "reviver E value =
     (if truthy value \<and> get value ''type'' = Inr (JStr (units ''Buffer''))
      then (case get value ''data'' of Inl e \<Rightarrow> Inl e | Inr d \<Rightarrow> newBuffer E d)
      else Inr value)"

text \<open>
  \<^verbatim>\<open>JSON.parse(text, reviver)\<close> parses, then walks the result bottom-up: the reviver is
  called on every element and property value, in order, after their own parts, and last on
  the root. A property whose revived value is \<^verbatim>\<open>undefined\<close> is deleted. What the reviver
  throws ends the walk.
\<close>

fun internalize :: "(jsval \<Rightarrow> exn + jsval) \<Rightarrow> jsval \<Rightarrow> exn + jsval"
  and internalize_elems :: "(jsval \<Rightarrow> exn + jsval) \<Rightarrow> jsval list \<Rightarrow> exn + jsval list"
  and internalize_props ::
    "(jsval \<Rightarrow> exn + jsval) \<Rightarrow> (jsstring \<times> jsval) list \<Rightarrow> exn + (jsstring \<times> jsval) list"
where
  "internalize rv (JArr xs) =
     (case internalize_elems rv xs of Inl e \<Rightarrow> Inl e | Inr ys \<Rightarrow> rv (JArr ys))"
| "internalize rv (JObj ps) =
     (case internalize_props rv ps of Inl e \<Rightarrow> Inl e | Inr qs \<Rightarrow> rv (JObj qs))"
| "internalize rv JUndefined = rv JUndefined"
| "internalize rv JNull = rv JNull"
| "internalize rv (JBool b) = rv (JBool b)"
| "internalize rv (JNum q) = rv (JNum q)"
| "internalize rv (JStr s) = rv (JStr s)"
| "internalize rv (JBuf b) = rv (JBuf b)"
| "internalize_elems rv [] = Inr []"
| "internalize_elems rv (x # xs) =
     (case internalize rv x of
        Inl e \<Rightarrow> Inl e
      | Inr y \<Rightarrow> (case internalize_elems rv xs of Inl e \<Rightarrow> Inl e | Inr ys \<Rightarrow> Inr (y # ys)))"
| "internalize_props rv [] = Inr []"
| "internalize_props rv (p # ps) =
     (case internalize rv (snd p) of
        Inl e \<Rightarrow> Inl e
      | Inr y \<Rightarrow>
          (case internalize_props rv ps of
             Inl e \<Rightarrow> Inl e
           | Inr qs \<Rightarrow> Inr (if y = JUndefined then qs else (fst p, y) # qs)))"

definition JSON_parse_reviver :: "(jsval \<Rightarrow> exn + jsval) \<Rightarrow> string \<Rightarrow> exn + jsval" where
  "JSON_parse_reviver rv text =
     (case JSON_parse text of None \<Rightarrow> Inl SyntaxError | Some v \<Rightarrow> internalize rv v)"

section \<open>The shared store and the effects of a request\<close>

text \<open>
  Every store access and every outbound request is appended to a trace, so that their
  number and order can be stated.
\<close>

datatype effect = Get string | Put string string | Fetch options

record world =
  store :: "string \<rightharpoonup> string"
  trace :: "effect list"

text \<open>
  Modelled from the spec: the module \<^verbatim>\<open>./db\<close> is not among the sources. Section 6 gives
  its contract: \<^verbatim>\<open>get(key)\<close> yields the stored string or absent, \<^verbatim>\<open>put(key, value)\<close>
  stores the string.
\<close>

definition db_get :: "string \<Rightarrow> world \<Rightarrow> string option \<times> world" where
  "db_get key w = (store w key, w\<lparr>trace := trace w @ [Get key]\<rparr>)"

definition db_put :: "string \<Rightarrow> string \<Rightarrow> world \<Rightarrow> world" where
  "db_put key v w = w\<lparr>store := (store w)(key \<mapsto> v), trace := trace w @ [Put key v]\<rparr>"

text \<open>\<^verbatim>\<open>makeRequest\<close> (lines 205 to 215): rejects with the error, or resolves with the response.\<close>

definition makeRequest :: "runtime \<Rightarrow> options \<Rightarrow> world \<Rightarrow> (exn + response) \<times> world" where
  "makeRequest E opts w = (origin E opts, w\<lparr>trace := trace w @ [Fetch opts]\<rparr>)"

section \<open>Cache Coordinator\<close>

text \<open>
  \<^verbatim>\<open>makeAPIRequest\<close> (lines 115 to 187); \<open>rid\<close> is the source's \<^verbatim>\<open>id\<close>. Logging is
  left out.
\<close>

definition makeAPIRequest ::
  "runtime \<Rightarrow> request \<Rightarrow> Buffer \<Rightarrow> string \<Rightarrow> world \<Rightarrow> (exn + jsval) \<times> world" where
  "makeAPIRequest E req body rid w0 =
     (let (locked, w1) = db_get ''lock'' w0 in
      if locked = Some ''true'' then (Inl (Error ''unavailable''), w1)
      else
        (let (data, w2) = db_get rid w1 in
         if data = Some ''__REQUEST__'' then (Inl (Error ''unavailable''), w2)
         else if data = Some ''__BLOCK__'' then (Inl (Error ''gone''), w2)
         else
           (case data of
              Some d \<Rightarrow>
                (case JSON_parse_reviver (reviver E) d of
                   Inr v \<Rightarrow> (Inr v, w2)
                 | Inl err \<Rightarrow> (Inl (Error ''gone''), w2))
            | None \<Rightarrow>
                (let w3 = db_put rid ''__REQUEST__'' w2;
                     (r, w4) = makeRequest E
                        \<lparr>opt_method = req_method req,
                         opt_url = url req,
                         opt_body = (if length body > 0 then Some body else None),
                         opt_headers = removeProxyHeaders (headers req),
                         opt_encoding = None,
                         opt_timeout = 180000\<rparr> w3
                 in case r of
                      Inr rr \<Rightarrow>
                        (let cacheObj =
                               \<lparr>statusCode = res_statusCode rr,
                                cache_headers = removeProxyHeaders (res_headers rr),
                                content = res_body rr\<rparr>;
                             w5 = db_put rid (JSON_stringify cacheObj) w4
                         in (Inr (js_of_cacheObj cacheObj), w5))
                    | Inl err \<Rightarrow>
                        (let w5 = db_put rid ''__BLOCK__'' w4
                         in (Inl (Error ''gone''), w5))))))"

section \<open>Identity Resolver\<close>

text \<open>
  \<^verbatim>\<open>getRequestId\<close> (lines 189 to 198). The template literal converts an array to its
  elements joined by commas.
\<close>

fun qs_toString :: "qsval \<Rightarrow> string" where
  "qs_toString (QStr s) = s"
| "qs_toString (QArr xs) = join '','' xs"

fun h_toString :: "hval \<Rightarrow> string" where
  "h_toString (HStr s) = s"
| "h_toString (HArr xs) = join '','' xs"

definition getRequestId :: "runtime \<Rightarrow> request \<Rightarrow> Buffer \<Rightarrow> exn + string" where
  "getRequestId E req body =
     (let bodyp = form E body;
          user = map_of bodyp ''api_token'';
          token = map_of (headers req) ''cache-token''
      in case (user, token) of
           (Some u, Some t) \<Rightarrow> Inr (qs_toString u @ ''-'' @ h_toString t)
         | _ \<Rightarrow> Inl (Error ''forbidden''))"

section \<open>The API pipeline\<close>

text \<open>
  What is written to the client: either the two calls \<^verbatim>\<open>res.writeHead(data.statusCode,
  data.headers)\<close> and \<^verbatim>\<open>res.end(data.content)\<close> with their arguments, or the page
  \<^verbatim>\<open>renderErrorPage\<close> renders for a status code.
\<close>

datatype reply = Reply jsval jsval jsval | ErrorPage nat

text \<open>The \<^verbatim>\<open>switch\<close> on \<^verbatim>\<open>err.message\<close> (lines 92 to 103).\<close>

fun errCode :: "exn \<Rightarrow> nat" where
  "errCode (Error m) =
     (if m = ''unavailable'' then 503
      else if m = ''gone'' then 410
      else if m = ''forbidden'' then 403
      else 500)"
| "errCode SyntaxError = 500"
| "errCode TypeError = 500"

text \<open>\<^verbatim>\<open>onAPIRequest\<close> (lines 72 to 113), once the body has arrived.\<close>

definition onAPIRequest :: "runtime \<Rightarrow> request \<Rightarrow> Buffer \<Rightarrow> world \<Rightarrow> reply \<times> world" where
  "onAPIRequest E req body w =
     (case getRequestId E req body of
        Inl err \<Rightarrow> (ErrorPage (errCode err), w)
      | Inr rid \<Rightarrow>
          (case makeAPIRequest E req body rid w of
             (Inl err, w') \<Rightarrow> (ErrorPage (errCode err), w')
           | (Inr data, w') \<Rightarrow>
               (case (get data ''statusCode'', get data ''headers'', get data ''content'') of
                  (Inr s, Inr h, Inr c) \<Rightarrow> (Reply s h c, w')
                | (Inl err, _, _) \<Rightarrow> (ErrorPage (errCode err), w')
                | (_, Inl err, _) \<Rightarrow> (ErrorPage (errCode err), w')
                | (_, _, Inl err) \<Rightarrow> (ErrorPage (errCode err), w'))))"

text \<open>
  The options object of lines 149 to 156 and the \<^verbatim>\<open>cacheObj\<close> of lines 168 to 172, as
  functions of what they are built from.
\<close>

definition fetchOptions :: "request \<Rightarrow> Buffer \<Rightarrow> options" where
  "fetchOptions req body =
     \<lparr>opt_method = req_method req, opt_url = url req,
      opt_body = (if length body > 0 then Some body else None),
      opt_headers = removeProxyHeaders (headers req),
      opt_encoding = None, opt_timeout = 180000\<rparr>"

definition cacheObj_of :: "response \<Rightarrow> cacheObj" where
  "cacheObj_of rr =
     \<lparr>statusCode = res_statusCode rr,
      cache_headers = removeProxyHeaders (res_headers rr),
      content = res_body rr\<rparr>"

section \<open>Counting effects\<close>

text \<open>What one run of the coordinator adds to the trace.\<close>

definition effects :: "runtime \<Rightarrow> request \<Rightarrow> Buffer \<Rightarrow> string \<Rightarrow> world \<Rightarrow> effect list" where
  "effects E req body rid w =
     drop (length (trace w)) (trace (snd (makeAPIRequest E req body rid w)))"

fun is_Get :: "effect \<Rightarrow> bool" where
  "is_Get (Get k) = True"
| "is_Get e = False"

fun is_Put :: "effect \<Rightarrow> bool" where
  "is_Put (Put k v) = True"
| "is_Put e = False"

fun is_Fetch :: "effect \<Rightarrow> bool" where
  "is_Fetch (Fetch opts) = True"
| "is_Fetch e = False"

definition reads :: "effect list \<Rightarrow> nat" where
  "reads t = length (filter is_Get t)"

definition writes :: "effect list \<Rightarrow> nat" where
  "writes t = length (filter is_Put t)"

definition fetches :: "effect list \<Rightarrow> nat" where
  "fetches t = length (filter is_Fetch t)"

section \<open>The payload of the data model\<close>

text \<open>
  Section 3 of the specification describes a \<^verbatim>\<open>READY\<close> payload as a serialized prior
  response: a status code, a header map and a raw content body. \<open>is_payload\<close> says that
  of a decoded value, \<open>valid_payload_encoding\<close> of a stored string.
\<close>

definition is_payload :: "jsval \<Rightarrow> bool" where
  "is_payload v =
     (case (get v ''statusCode'', get v ''headers'', get v ''content'') of
        (Inr (JNum n), Inr (JObj h), Inr (JBuf b)) \<Rightarrow> True
      | _ \<Rightarrow> False)"

definition valid_payload_encoding :: "runtime \<Rightarrow> string \<Rightarrow> bool" where
  "valid_payload_encoding E d =
     (case JSON_parse_reviver (reviver E) d of Inr v \<Rightarrow> is_payload v | Inl err \<Rightarrow> False)"

section \<open>Example requests\<close>

text \<open>
  A plain reading of a form body \<^verbatim>\<open>a=b&c=d\<close> without percent-escapes, enough for the
  example requests below: fields are split at \<^verbatim>\<open>&\<close>, name and value at the first \<^verbatim>\<open>=\<close>,
  and a repeated name collects its values in an array.
\<close>

fun split :: "char \<Rightarrow> string \<Rightarrow> string list" where
  "split sep [] = [[]]"
| "split sep (c # cs) =
     (if c = sep then [] # split sep cs
      else (case split sep cs of [] \<Rightarrow> [[c]] | x # xs \<Rightarrow> (c # x) # xs))"

definition qs_add :: "(string \<times> qsval) list \<Rightarrow> string \<Rightarrow> (string \<times> qsval) list" where
  "qs_add obj part =
     (let k = takeWhile (\<lambda>c. c \<noteq> CHR ''='') part;
          v = drop 1 (dropWhile (\<lambda>c. c \<noteq> CHR ''='') part)
      in case map_of obj k of
           None \<Rightarrow> obj @ [(k, QStr v)]
         | Some (QStr old) \<Rightarrow> AList.update k (QArr [old, v]) obj
         | Some (QArr olds) \<Rightarrow> AList.update k (QArr (olds @ [v])) obj)"

definition querystring_parse :: "string \<Rightarrow> (string \<times> qsval) list" where
  "querystring_parse s = (if s = [] then [] else foldl qs_add [] (split CHR ''&'' s))"

definition bytes :: "string \<Rightarrow> Buffer" where
  "bytes s = map (\<lambda>c. of_nat (of_char c)) s"

definition toString :: "Buffer \<Rightarrow> string" where
  "toString b = map (\<lambda>w. char_of (unat w)) b"

text \<open>
  An origin that answers 200 with the body \<^verbatim>\<open>{"ok":true}\<close>, one that cannot be reached,
  and one whose answer carries the header \<^verbatim>\<open>Type: Buffer\<close>.
\<close>

definition res0 :: response where
  "res0 = \<lparr>res_statusCode = 200,
           res_headers = [(''content-type'', HStr ''application/json''),
                          (''connection'', HStr ''close''),
                          (''set-cookie'', HArr [''a=1'', ''b=2''])],
           res_body = bytes ''{\"ok\":true}''\<rparr>"

definition E0 :: runtime where
  "E0 = \<lparr>form = (\<lambda>b. querystring_parse (toString b)),
         buffer_other = (\<lambda>v. Inl TypeError),
         origin = (\<lambda>opts. Inr res0)\<rparr>"

definition E_down :: runtime where
  "E_down = E0\<lparr>origin := (\<lambda>opts. Inl (Error ''ETIMEDOUT''))\<rparr>"

definition res_typed :: response where
  "res_typed = \<lparr>res_statusCode = 200,
               res_headers = [(''type'', HStr ''Buffer'')],
               res_body = bytes ''ok''\<rparr>"

definition E_typed :: runtime where
  "E_typed = E0\<lparr>origin := (\<lambda>opts. Inr res_typed)\<rparr>"

text \<open>
  The request of the specification's scenario A: body \<^verbatim>\<open>api_token=u1\<close>, header
  \<^verbatim>\<open>cache-token: t1\<close>; its cache key is \<^verbatim>\<open>u1-t1\<close>.
\<close>

definition req0 :: request where
  "req0 = \<lparr>req_method = ''POST'', url = ''http://example.com/kcsapi/api_start2'',
           headers = [(''host'', HStr ''example.com''), (''cache-token'', HStr ''t1''),
                      (''content-length'', HStr ''12'')]\<rparr>"

definition body0 :: Buffer where
  "body0 = bytes ''api_token=u1''"

definition opts0 :: options where
  "opts0 = \<lparr>opt_method = ''POST'', opt_url = ''http://example.com/kcsapi/api_start2'',
            opt_body = Some body0, opt_headers = [], opt_encoding = None,
            opt_timeout = 180000\<rparr>"

definition cache0 :: cacheObj where
  "cache0 = \<lparr>statusCode = 200,
             cache_headers = [(''content-type'', HStr ''application/json''),
                              (''set-cookie'', HArr [''a=1'', ''b=2''])],
             content = bytes ''{\"ok\":true}''\<rparr>"

definition cache_typed :: cacheObj where
  "cache_typed = \<lparr>statusCode = 200,
                  cache_headers = [(''type'', HStr ''Buffer'')],
                  content = bytes ''ok''\<rparr>"

text \<open>The store with a given entry under \<^verbatim>\<open>u1-t1\<close>, with and without the flag.\<close>

definition w0 :: world where
  "w0 = \<lparr>store = Map.empty, trace = []\<rparr>"

definition w_entry :: "string \<Rightarrow> world" where
  "w_entry d = \<lparr>store = [''u1-t1'' \<mapsto> d], trace = []\<rparr>"

definition w_locked :: "string \<Rightarrow> world" where
  "w_locked d = \<lparr>store = [''u1-t1'' \<mapsto> d, ''lock'' \<mapsto> ''true''], trace = []\<rparr>"

section \<open>The branches of the coordinator\<close>

lemmas coord_defs = makeAPIRequest_def db_get_def db_put_def makeRequest_def

lemma makeAPIRequest_locked:
  "store w ''lock'' = Some ''true'' \<Longrightarrow>
   makeAPIRequest E req body rid w =
     (Inl (Error ''unavailable''), w\<lparr>trace := trace w @ [Get ''lock'']\<rparr>)"
  by (simp add: coord_defs)

lemma makeAPIRequest_pending:
  "store w ''lock'' \<noteq> Some ''true'' \<Longrightarrow> store w rid = Some ''__REQUEST__'' \<Longrightarrow>
   makeAPIRequest E req body rid w =
     (Inl (Error ''unavailable''), w\<lparr>trace := trace w @ [Get ''lock'', Get rid]\<rparr>)"
  by (simp add: coord_defs)

lemma makeAPIRequest_blocked:
  "store w ''lock'' \<noteq> Some ''true'' \<Longrightarrow> store w rid = Some ''__BLOCK__'' \<Longrightarrow>
   makeAPIRequest E req body rid w =
     (Inl (Error ''gone''), w\<lparr>trace := trace w @ [Get ''lock'', Get rid]\<rparr>)"
  by (simp add: coord_defs)

lemma makeAPIRequest_ready:
  "store w ''lock'' \<noteq> Some ''true'' \<Longrightarrow> store w rid = Some d \<Longrightarrow>
   d \<noteq> ''__REQUEST__'' \<Longrightarrow> d \<noteq> ''__BLOCK__'' \<Longrightarrow>
   makeAPIRequest E req body rid w =
     (case JSON_parse_reviver (reviver E) d of
        Inr v \<Rightarrow> (Inr v, w\<lparr>trace := trace w @ [Get ''lock'', Get rid]\<rparr>)
      | Inl err \<Rightarrow> (Inl (Error ''gone''), w\<lparr>trace := trace w @ [Get ''lock'', Get rid]\<rparr>))"
  by (simp add: coord_defs split: sum.splits)

lemma makeAPIRequest_absent:
  "store w ''lock'' \<noteq> Some ''true'' \<Longrightarrow> store w rid = None \<Longrightarrow>
   makeAPIRequest E req body rid w =
     (case origin E (fetchOptions req body) of
        Inr rr \<Rightarrow>
          (Inr (js_of_cacheObj (cacheObj_of rr)),
           w\<lparr>store := (store w)(rid \<mapsto> JSON_stringify (cacheObj_of rr)),
             trace := trace w @ [Get ''lock'', Get rid, Put rid ''__REQUEST__'',
                                 Fetch (fetchOptions req body),
                                 Put rid (JSON_stringify (cacheObj_of rr))]\<rparr>)
      | Inl err \<Rightarrow>
          (Inl (Error ''gone''),
           w\<lparr>store := (store w)(rid \<mapsto> ''__BLOCK__''),
             trace := trace w @ [Get ''lock'', Get rid, Put rid ''__REQUEST__'',
                                 Fetch (fetchOptions req body), Put rid ''__BLOCK__'']\<rparr>))"
  by (simp add: coord_defs fetchOptions_def cacheObj_of_def Let_def split: sum.splits)

text \<open>What a run adds to the trace, branch by branch.\<close>

lemma effects_cases:
  "effects E req body rid w =
     (if store w ''lock'' = Some ''true'' then [Get ''lock'']
      else case store w rid of
             Some d \<Rightarrow> [Get ''lock'', Get rid]
           | None \<Rightarrow>
               [Get ''lock'', Get rid, Put rid ''__REQUEST__'', Fetch (fetchOptions req body),
                Put rid (case origin E (fetchOptions req body) of
                           Inr rr \<Rightarrow> JSON_stringify (cacheObj_of rr)
                         | Inl err \<Rightarrow> ''__BLOCK__'')])"
  by (simp add: effects_def coord_defs fetchOptions_def cacheObj_of_def Let_def
           split: sum.splits option.splits)

lemma errCode_410: "errCode e = 410 \<longleftrightarrow> e = Error ''gone''"
  by (cases e) auto

lemma errCode_503: "errCode e = 503 \<longleftrightarrow> e = Error ''unavailable''"
  by (cases e) auto

lemma onAPIRequest_error:
  "getRequestId E req body = Inr rid \<Longrightarrow> makeAPIRequest E req body rid w = (Inl e, w') \<Longrightarrow>
   onAPIRequest E req body w = (ErrorPage (errCode e), w')"
  by (simp add: onAPIRequest_def)

lemma onAPIRequest_reply:
  "getRequestId E req body = Inr rid \<Longrightarrow> makeAPIRequest E req body rid w = (Inr v, w') \<Longrightarrow>
   get v ''statusCode'' = Inr s \<Longrightarrow> get v ''headers'' = Inr h \<Longrightarrow> get v ''content'' = Inr c \<Longrightarrow>
   onAPIRequest E req body w = (Reply s h c, w')"
  by (simp add: onAPIRequest_def)


lemma JSON_stringify_brace: "JSON_stringify c = CHR ''{'' # tl (JSON_stringify c)"
  by (simp add: JSON_stringify_def)

lemma JSON_stringify_not_sentinel:
  "JSON_stringify c \<noteq> ''__REQUEST__''" "JSON_stringify c \<noteq> ''__BLOCK__''"
  "JSON_stringify c \<noteq> ''true''"
  by (simp_all add: JSON_stringify_def)

lemma getRequestId_forbidden:
  "map_of (form E body) ''api_token'' = None \<or> map_of (headers req) ''cache-token'' = None \<Longrightarrow>
   getRequestId E req body = Inl (Error ''forbidden'')"
  by (auto simp add: getRequestId_def Let_def split: option.splits)

lemma getRequestId_key:
  "map_of (form E body) ''api_token'' = Some u \<Longrightarrow> map_of (headers req) ''cache-token'' = Some t \<Longrightarrow>
   getRequestId E req body = Inr (qs_toString u @ ''-'' @ h_toString t)"
  by (simp add: getRequestId_def)



section \<open>The sanitizer\<close>



lemma copy_loop_distinct:
  "distinct (map fst acc) \<Longrightarrow>
   distinct (map fst (foldl (\<lambda>h key. case map_of hs key of None \<Rightarrow> h
                                      | Some v \<Rightarrow> AList.update key v h) acc ks))"
  by (induction ks arbitrary: acc) (auto simp add: distinct_update split: option.splits)

lemma update_fresh: "k \<notin> fst ` set al \<Longrightarrow> AList.update k v al = al @ [(k, v)]"
  by (induction al) auto


lemma removeProxyHeaders_as_filter:
  "removeProxyHeaders h =
     filter (\<lambda>p. fst p \<notin> proxyHeaders)
       (foldl (\<lambda>a key. case map_of h key of None \<Rightarrow> a | Some v \<Rightarrow> AList.update key v a)
              [] (map fst h))"
proof -
  have "removeProxyHeaders h =
      filter (\<lambda>p. fst p \<noteq> ''connection'' \<and> fst p \<noteq> ''proxy-connection'' \<and>
                  fst p \<noteq> ''proxy-authenticate'' \<and> fst p \<noteq> ''proxy-authorization'' \<and>
                  fst p \<noteq> ''host'' \<and> fst p \<noteq> ''content-length'' \<and>
                  fst p \<noteq> ''cache-token'' \<and> fst p \<noteq> ''request-uri'')
        (foldl (\<lambda>a key. case map_of h key of None \<Rightarrow> a | Some v \<Rightarrow> AList.update key v a)
               [] (map fst h))"
    by (simp add: removeProxyHeaders_def Let_def AList.delete_eq case_prod_unfold eq_commute
             cong: filter_cong)
  also have "\<dots> = filter (\<lambda>p. fst p \<notin> proxyHeaders)
        (foldl (\<lambda>a key. case map_of h key of None \<Rightarrow> a | Some v \<Rightarrow> AList.update key v a)
               [] (map fst h))"
    by (rule filter_cong) (simp_all add: proxyHeaders_def)
  finally show ?thesis .
qed



lemma removeProxyHeaders_distinct: "distinct (map fst (removeProxyHeaders h))"
  by (simp only: removeProxyHeaders_as_filter)
     (rule distinct_map_filter, rule copy_loop_distinct, simp)



section \<open>The fuel of the parser\<close>

lemma parse_mono:
  "(\<forall>s res. parse_value n s = Some res \<longrightarrow> parse_value (n + k) s = Some res) \<and>
   (\<forall>acc s res. parse_elems n acc s = Some res \<longrightarrow> parse_elems (n + k) acc s = Some res) \<and>
   (\<forall>acc s res. parse_members n acc s = Some res \<longrightarrow> parse_members (n + k) acc s = Some res)"
proof (induction n)
  case 0
  show ?case by simp
next
  case (Suc n)
  from Suc.IH have IHv: "parse_value (n + k) s = Some res" if "parse_value n s = Some res" for s res
    using that by blast
  from Suc.IH have IHe: "parse_elems (n + k) acc s = Some res"
    if "parse_elems n acc s = Some res" for acc s res
    using that by blast
  from Suc.IH have IHm: "parse_members (n + k) acc s = Some res"
    if "parse_members n acc s = Some res" for acc s res
    using that by blast
  have v: "parse_value (Suc (n + k)) s = Some res" if ok: "parse_value (Suc n) s = Some res"
    for s res
  proof (cases "skip_ws s")
    case Nil
    with ok show ?thesis by simp
  next
    case s: (Cons c r)
    consider "c = CHR ''[''" | "c \<noteq> CHR ''[''" "c = CHR ''{''" | "c \<noteq> CHR ''[''" "c \<noteq> CHR ''{''"
      by blast
    then show ?thesis
    proof cases
      case 1
      show ?thesis
      proof (cases "skip_ws r")
        case Nil
        with ok s 1 show ?thesis by simp
      next
        case r: (Cons d r1)
        show ?thesis
        proof (cases "d = CHR '']''")
          case True
          with ok s 1 r show ?thesis by simp
        next
          case False
          with ok s 1 r have "parse_elems n [] r = Some res" by simp
          then have "parse_elems (n + k) [] r = Some res" by (rule IHe)
          with s 1 r False show ?thesis by simp
        qed
      qed
    next
      case 2
      show ?thesis
      proof (cases "skip_ws r")
        case Nil
        with ok s 2 show ?thesis by simp
      next
        case r: (Cons d r1)
        show ?thesis
        proof (cases "d = CHR ''}''")
          case True
          with ok s 2 r show ?thesis by simp
        next
          case False
          with ok s 2 r have "parse_members n [] r = Some res" by simp
          then have "parse_members (n + k) [] r = Some res" by (rule IHm)
          with s 2 r False show ?thesis by simp
        qed
      qed
    next
      case 3
      with ok s show ?thesis by simp
    qed
  qed
  have e: "parse_elems (Suc (n + k)) acc s = Some res"
    if ok: "parse_elems (Suc n) acc s = Some res" for acc s res
  proof (cases "parse_value n s")
    case None
    with ok show ?thesis by simp
  next
    case (Some p)
    obtain x r where p: "p = (x, r)" by (cases p)
    from Some p have pv: "parse_value n s = Some (x, r)" by simp
    then have pv': "parse_value (n + k) s = Some (x, r)" by (rule IHv)
    show ?thesis
    proof (cases "skip_ws r")
      case Nil
      with ok pv show ?thesis by simp
    next
      case r: (Cons d r1)
      show ?thesis
      proof (cases "d = CHR '',''")
        case True
        with ok pv r have "parse_elems n (acc @ [x]) r1 = Some res" by simp
        then have "parse_elems (n + k) (acc @ [x]) r1 = Some res" by (rule IHe)
        with pv' r True show ?thesis by simp
      next
        case False
        with ok pv pv' r show ?thesis by simp
      qed
    qed
  qed
  have m: "parse_members (Suc (n + k)) acc s = Some res"
    if ok: "parse_members (Suc n) acc s = Some res" for acc s res
  proof (cases "skip_ws s")
    case Nil
    with ok show ?thesis by simp
  next
    case s: (Cons q r)
    with ok have q: "q = CHR 0x22"
      by (cases "q = CHR 0x22") simp_all
    show ?thesis
    proof (cases "parse_string r")
      case None
      with ok s q show ?thesis by simp
    next
      case (Some p)
      obtain key r1 where p: "p = (key, r1)" by (cases p)
      from Some p have ps: "parse_string r = Some (key, r1)" by simp
      show ?thesis
      proof (cases "skip_ws r1")
        case Nil
        with ok s q ps show ?thesis by simp
      next
        case r1: (Cons c r2)
        with ok s q ps have c: "c = CHR '':''"
          by (cases "c = CHR '':''") simp_all
        show ?thesis
        proof (cases "parse_value n r2")
          case None
          with ok s q ps r1 c show ?thesis by simp
        next
          case (Some p')
          obtain x r3 where p': "p' = (x, r3)" by (cases p')
          from Some p' have pv: "parse_value n r2 = Some (x, r3)" by simp
          then have pv': "parse_value (n + k) r2 = Some (x, r3)" by (rule IHv)
          show ?thesis
          proof (cases "skip_ws r3")
            case Nil
            with ok s q ps r1 c pv show ?thesis by simp
          next
            case r3: (Cons d r4)
            show ?thesis
            proof (cases "d = CHR '',''")
              case True
              with ok s q ps r1 c pv r3
              have "parse_members n (AList.update key x acc) r4 = Some res" by simp
              then have "parse_members (n + k) (AList.update key x acc) r4 = Some res"
                by (rule IHm)
              with s q ps r1 c pv' r3 True show ?thesis by simp
            next
              case False
              with ok s q ps r1 c pv pv' r3 show ?thesis by simp
            qed
          qed
        qed
      qed
    qed
  qed
  from v e m show ?case by simp
qed

lemma parse_value_mono:
  "parse_value n s = Some res \<Longrightarrow> n \<le> m \<Longrightarrow> parse_value m s = Some res"
  using parse_mono [of n "m - n"] by (cases res) auto

lemma parse_elems_mono:
  "parse_elems n acc s = Some res \<Longrightarrow> n \<le> m \<Longrightarrow> parse_elems m acc s = Some res"
  using parse_mono [of n "m - n"] by (cases res) auto

lemma parse_members_mono:
  "parse_members n acc s = Some res \<Longrightarrow> n \<le> m \<Longrightarrow> parse_members m acc s = Some res"
  using parse_mono [of n "m - n"] by (cases res) auto

text \<open>Every successful step consumes input.\<close>

lemma skip_ws_length: "skip_ws s = c # r \<Longrightarrow> length r < length s"
proof -
  assume "skip_ws s = c # r"
  then have "length (c # r) \<le> length s"
    using length_dropWhile_le [of is_ws s] by (simp add: skip_ws_def)
  then show ?thesis by simp
qed

lemma parse_string_length: "parse_string s = Some (k, r) \<Longrightarrow> length r < length s"
proof (induction s arbitrary: k r rule: length_induct)
  case (1 s)
  show ?case
  proof (cases s)
    case Nil
    with "1.prems" show ?thesis by simp
  next
    case s: (Cons c t)
    consider "c = CHR 0x22" | "c \<noteq> CHR 0x22" "c = CHR 0x5C"
      | "c \<noteq> CHR 0x22" "c \<noteq> CHR 0x5C"
      by blast
    then show ?thesis
    proof cases
      case 1
      with "1.prems" s show ?thesis by simp
    next
      case 3
      with "1.prems" s obtain k' where "parse_string t = Some (k', r)"
        by (auto split: if_splits)
      with "1.IH" s have "length r < length t" by simp
      with s show ?thesis by simp
    next
      case 2
      show ?thesis
      proof (cases t)
        case Nil
        with "1.prems" s 2 show ?thesis by simp
      next
        case t: (Cons e t1)
        show ?thesis
        proof (cases "e = CHR ''u''")
          case False
          with "1.prems" s 2 t obtain k' where "parse_string t1 = Some (k', r)"
            by (auto split: option.splits)
          with "1.IH" s t have "length r < length t1" by simp
          with s t show ?thesis by simp
        next
          case True
          with "1.prems" s 2 t obtain h1 h2 h3 h4 t2 k' where
            "t1 = h1 # h2 # h3 # h4 # t2" "parse_string t2 = Some (k', r)"
            by (auto split: list.splits option.splits)
          moreover from this "1.IH" s t have "length r < length t2" by simp
          ultimately show ?thesis
            using s t by simp
        qed
      qed
    qed
  qed
qed

lemma parse_fraction_length: "parse_fraction s = Some (f, r) \<Longrightarrow> length r \<le> length s"
  using length_dropWhile_le [of is_digit "tl s"]
  by (auto simp add: parse_fraction_def Let_def split: list.splits if_splits)

lemma parse_exponent_length: "parse_exponent s = Some (e, r) \<Longrightarrow> length r \<le> length s"
proof (cases s)
  case Nil
  assume "parse_exponent s = Some (e, r)"
  with Nil show ?thesis by (simp add: parse_exponent_def)
next
  case s: (Cons c t)
  assume ok: "parse_exponent s = Some (e, r)"
  show ?thesis
  proof (cases "c = CHR ''e'' \<or> c = CHR ''E''")
    case False
    with ok s show ?thesis by (simp add: parse_exponent_def)
  next
    case True
    obtain neg t1 where sign:
      "(case t of [] \<Rightarrow> (False, t)
        | g # r' \<Rightarrow> if g = CHR ''-'' then (True, r') else if g = CHR ''+'' then (False, r')
                    else (False, t)) = (neg, t1)"
      by (cases "case t of [] \<Rightarrow> (False, t)
        | g # r' \<Rightarrow> if g = CHR ''-'' then (True, r') else if g = CHR ''+'' then (False, r')
                    else (False, t)") auto
    then have "length t1 \<le> length t"
      by (auto split: list.splits if_splits)
    moreover from ok s True sign have "r = dropWhile is_digit t1"
      by (auto simp add: parse_exponent_def Let_def split: if_splits)
    ultimately show ?thesis
      using length_dropWhile_le [of is_digit t1] s by simp
  qed
qed

lemma parse_number_length: "parse_number s = Some (v, r) \<Longrightarrow> length r < length s"
proof -
  assume ok: "parse_number s = Some (v, r)"
  obtain neg s1 where sign:
    "(case s of [] \<Rightarrow> (False, s) | c # r \<Rightarrow> if c = CHR ''-'' then (True, r) else (False, s)) =
       (neg, s1)"
    by (cases "case s of [] \<Rightarrow> (False, s)
                 | c # r \<Rightarrow> if c = CHR ''-'' then (True, r) else (False, s)") auto
  then have s1: "length s1 \<le> length s"
    by (auto split: list.splits if_splits)
  from ok sign have ds: "takeWhile is_digit s1 \<noteq> []"
    by (auto simp add: parse_number_def Let_def split: if_splits)
  from ok sign ds obtain f s2 e where
    f: "parse_fraction (dropWhile is_digit s1) = Some (f, s2)" and
    e: "parse_exponent s2 = Some (e, r)"
    by (auto simp add: parse_number_def Let_def split: if_splits option.splits)
  have "length (takeWhile is_digit s1) + length (dropWhile is_digit s1) = length s1"
    by (metis length_append takeWhile_dropWhile_id)
  with ds have "length (dropWhile is_digit s1) < length s1"
    by (cases "takeWhile is_digit s1") simp_all
  with parse_fraction_length [OF f] parse_exponent_length [OF e] s1 show ?thesis
    by simp
qed

lemma parse_scalar_length: "parse_scalar c t = Some (v, r) \<Longrightarrow> length r \<le> length t"
proof -
  assume ok: "parse_scalar c t = Some (v, r)"
  consider "c = CHR 0x22"
    | "c \<noteq> CHR 0x22" "c = CHR ''t'' \<or> c = CHR ''f'' \<or> c = CHR ''n''"
    | "c \<noteq> CHR 0x22" "c \<noteq> CHR ''t''" "c \<noteq> CHR ''f''" "c \<noteq> CHR ''n''"
    by blast
  then show ?thesis
  proof cases
    case 1
    with ok obtain k where "parse_string t = Some (k, r)"
      by (auto simp add: parse_scalar_def)
    then show ?thesis
      using parse_string_length by fastforce
  next
    case 2
    with ok show ?thesis
      by (auto simp add: parse_scalar_def parse_literal_def split: if_splits)
  next
    case 3
    with ok have "parse_number (c # t) = Some (v, r)"
      by (simp add: parse_scalar_def)
    then show ?thesis
      using parse_number_length by fastforce
  qed
qed

text \<open>
  A successful parse needs no more fuel than the number of characters it consumes.
\<close>

lemma parse_enough:
  "(\<forall>s v r. parse_value n s = Some (v, r) \<longrightarrow>
      length r < length s \<and> parse_value (length s - length r) s = Some (v, r)) \<and>
   (\<forall>acc s v r. parse_elems n acc s = Some (v, r) \<longrightarrow>
      length r < length s \<and> parse_elems (length s - length r) acc s = Some (v, r)) \<and>
   (\<forall>acc s v r. parse_members n acc s = Some (v, r) \<longrightarrow>
      length r < length s \<and> parse_members (length s - length r) acc s = Some (v, r))"
proof (induction n)
  case 0
  show ?case by simp
next
  case (Suc n)
  from Suc.IH have IHv: "length r < length s \<and> parse_value (length s - length r) s = Some (v, r)"
    if "parse_value n s = Some (v, r)" for s v r
    using that by blast
  from Suc.IH have IHe:
    "length r < length s \<and> parse_elems (length s - length r) acc s = Some (v, r)"
    if "parse_elems n acc s = Some (v, r)" for acc s v r
    using that by blast
  from Suc.IH have IHm:
    "length r < length s \<and> parse_members (length s - length r) acc s = Some (v, r)"
    if "parse_members n acc s = Some (v, r)" for acc s v r
    using that by blast
  have v: "length r < length s \<and> parse_value (length s - length r) s = Some (v, r)"
    if ok: "parse_value (Suc n) s = Some (v, r)" for s v r
  proof (cases "skip_ws s")
    case Nil
    with ok show ?thesis by simp
  next
    case s: (Cons c t)
    then have t: "length t < length s" by (rule skip_ws_length)
    consider "c = CHR ''[''" | "c \<noteq> CHR ''[''" "c = CHR ''{''" | "c \<noteq> CHR ''[''" "c \<noteq> CHR ''{''"
      by blast
    then show ?thesis
    proof cases
      case 1
      show ?thesis
      proof (cases "skip_ws t")
        case Nil
        with ok s 1 show ?thesis by simp
      next
        case t': (Cons d t1)
        then have t1: "length t1 < length t" by (rule skip_ws_length)
        show ?thesis
        proof (cases "d = CHR '']''")
          case True
          with ok s 1 t' have r: "r = t1" and "v = JArr []" by simp_all
          with t t1 obtain j where "length s - length r = Suc j"
            by (cases "length s - length r") auto
          with s 1 t' True r \<open>v = JArr []\<close> t t1 show ?thesis by simp
        next
          case False
          with ok s 1 t' have "parse_elems n [] t = Some (v, r)" by simp
          from IHe [OF this] have r: "length r < length t"
            and e: "parse_elems (length t - length r) [] t = Some (v, r)" by simp_all
          from r t obtain j where j: "length s - length r = Suc j" "length t - length r \<le> j"
            by (cases "length s - length r") auto
          from parse_elems_mono [OF e j(2)] s 1 t' False r t j(1) show ?thesis by simp
        qed
      qed
    next
      case 2
      show ?thesis
      proof (cases "skip_ws t")
        case Nil
        with ok s 2 show ?thesis by simp
      next
        case t': (Cons d t1)
        then have t1: "length t1 < length t" by (rule skip_ws_length)
        show ?thesis
        proof (cases "d = CHR ''}''")
          case True
          with ok s 2 t' have r: "r = t1" and "v = JObj []" by simp_all
          with t t1 obtain j where "length s - length r = Suc j"
            by (cases "length s - length r") auto
          with s 2 t' True r \<open>v = JObj []\<close> t t1 show ?thesis by simp
        next
          case False
          with ok s 2 t' have "parse_members n [] t = Some (v, r)" by simp
          from IHm [OF this] have r: "length r < length t"
            and e: "parse_members (length t - length r) [] t = Some (v, r)" by simp_all
          from r t obtain j where j: "length s - length r = Suc j" "length t - length r \<le> j"
            by (cases "length s - length r") auto
          from parse_members_mono [OF e j(2)] s 2 t' False r t j(1) show ?thesis by simp
        qed
      qed
    next
      case 3
      with ok s have sc: "parse_scalar c t = Some (v, r)" by simp
      from parse_scalar_length [OF sc] t have r: "length r < length s" by simp
      then obtain j where "length s - length r = Suc j"
        by (cases "length s - length r") auto
      with s 3 sc r show ?thesis by simp
    qed
  qed
  have e: "length r < length s \<and> parse_elems (length s - length r) acc s = Some (v, r)"
    if ok: "parse_elems (Suc n) acc s = Some (v, r)" for acc s v r
  proof (cases "parse_value n s")
    case None
    with ok show ?thesis by simp
  next
    case (Some p)
    obtain x t where p: "p = (x, t)" by (cases p)
    from Some p have pv: "parse_value n s = Some (x, t)" by simp
    from IHv [OF pv] have t: "length t < length s"
      and pv': "parse_value (length s - length t) s = Some (x, t)" by simp_all
    show ?thesis
    proof (cases "skip_ws t")
      case Nil
      with ok pv show ?thesis by simp
    next
      case t': (Cons d t1)
      then have t1: "length t1 < length t" by (rule skip_ws_length)
      show ?thesis
      proof (cases "d = CHR '',''")
        case True
        with ok pv t' have "parse_elems n (acc @ [x]) t1 = Some (v, r)" by simp
        from IHe [OF this] have r: "length r < length t1"
          and e: "parse_elems (length t1 - length r) (acc @ [x]) t1 = Some (v, r)" by simp_all
        from r t t1 obtain j where j: "length s - length r = Suc j"
          "length s - length t \<le> j" "length t1 - length r \<le> j"
          by (cases "length s - length r") auto
        from parse_value_mono [OF pv' j(2)] parse_elems_mono [OF e j(3)] t' True r t t1 j(1)
        show ?thesis by simp
      next
        case False
        with ok pv t' have r: "r = t1" and d: "d = CHR '']''" and x: "v = JArr (acc @ [x])"
          by (simp_all split: if_splits)
        from r t t1 obtain j where j: "length s - length r = Suc j" "length s - length t \<le> j"
          by (cases "length s - length r") auto
        from parse_value_mono [OF pv' j(2)] t' False r d x t t1 j(1)
        show ?thesis by simp
      qed
    qed
  qed
  have m: "length r < length s \<and> parse_members (length s - length r) acc s = Some (v, r)"
    if ok: "parse_members (Suc n) acc s = Some (v, r)" for acc s v r
  proof (cases "skip_ws s")
    case Nil
    with ok show ?thesis by simp
  next
    case s: (Cons q t)
    then have t: "length t < length s" by (rule skip_ws_length)
    from ok s have q: "q = CHR 0x22"
      by (cases "q = CHR 0x22") simp_all
    show ?thesis
    proof (cases "parse_string t")
      case None
      with ok s q show ?thesis by simp
    next
      case (Some p)
      obtain key t1 where p: "p = (key, t1)" by (cases p)
      from Some p have ps: "parse_string t = Some (key, t1)" by simp
      then have t1: "length t1 < length t" by (rule parse_string_length)
      show ?thesis
      proof (cases "skip_ws t1")
        case Nil
        with ok s q ps show ?thesis by simp
      next
        case t1': (Cons c t2)
        then have t2: "length t2 < length t1" by (rule skip_ws_length)
        from ok s q ps t1' have c: "c = CHR '':''"
          by (cases "c = CHR '':''") simp_all
        show ?thesis
        proof (cases "parse_value n t2")
          case None
          with ok s q ps t1' c show ?thesis by simp
        next
          case (Some p')
          obtain x t3 where p': "p' = (x, t3)" by (cases p')
          from Some p' have pv: "parse_value n t2 = Some (x, t3)" by simp
          from IHv [OF pv] have t3: "length t3 < length t2"
            and pv': "parse_value (length t2 - length t3) t2 = Some (x, t3)" by simp_all
          show ?thesis
          proof (cases "skip_ws t3")
            case Nil
            with ok s q ps t1' c pv show ?thesis by simp
          next
            case t3': (Cons d t4)
            then have t4: "length t4 < length t3" by (rule skip_ws_length)
            show ?thesis
            proof (cases "d = CHR '',''")
              case True
              with ok s q ps t1' c pv t3'
              have "parse_members n (AList.update key x acc) t4 = Some (v, r)" by simp
              from IHm [OF this] have r: "length r < length t4"
                and e: "parse_members (length t4 - length r) (AList.update key x acc) t4 =
                  Some (v, r)" by simp_all
              from r t t1 t2 t3 t4 obtain j where j: "length s - length r = Suc j"
                "length t2 - length t3 \<le> j" "length t4 - length r \<le> j"
                by (cases "length s - length r") auto
              from parse_value_mono [OF pv' j(2)] parse_members_mono [OF e j(3)]
                s q ps t1' c t3' True r t t1 t2 t3 t4 j(1)
              show ?thesis by simp
            next
              case False
              with ok s q ps t1' c pv t3' have r: "r = t4" and d: "d = CHR ''}''"
                and x: "v = JObj (AList.update key x acc)"
                by (simp_all split: if_splits)
              from r t t1 t2 t3 t4 obtain j where j: "length s - length r = Suc j"
                "length t2 - length t3 \<le> j"
                by (cases "length s - length r") auto
              from parse_value_mono [OF pv' j(2)] s q ps t1' c t3' False r d x t t1 t2 t3 t4 j(1)
              show ?thesis by simp
            qed
          qed
        qed
      qed
    qed
  qed
  from v e m show ?case by blast
qed

text \<open>
  So the fuel that \<open>JSON_parse\<close> starts with is never what makes it fail: a text that
  parses with any fuel parses with that one, to the same value.
\<close>

lemma JSON_parse_fuel:
  "JSON_parse text = Some v \<longleftrightarrow> (\<exists>n r. parse_value n text = Some (v, r) \<and> skip_ws r = [])"
proof
  assume "JSON_parse text = Some v"
  then obtain r where "parse_value (Suc (length text)) text = Some (v, r)" "skip_ws r = []"
    by (auto simp add: JSON_parse_def simp del: parse_value.simps
             split: option.splits if_splits)
  then show "\<exists>n r. parse_value n text = Some (v, r) \<and> skip_ws r = []"
    by blast
next
  assume "\<exists>n r. parse_value n text = Some (v, r) \<and> skip_ws r = []"
  then obtain n r where ok: "parse_value n text = Some (v, r)" and r: "skip_ws r = []"
    by blast
  from parse_enough [of n] ok
  have "parse_value (length text - length r) text = Some (v, r)"
    by blast
  then have "parse_value (Suc (length text)) text = Some (v, r)"
    by (rule parse_value_mono) simp
  with r show "JSON_parse text = Some v"
    by (simp add: JSON_parse_def)
qed

section \<open>Reading back what the serialiser writes\<close>

subsection \<open>Numbers\<close>

lemma char_eq_code: "c = d \<longleftrightarrow> (of_char c :: nat) = of_char d"
  by simp

lemma of_char_digit_char: "d < 10 \<Longrightarrow> (of_char (digit_char d) :: nat) = 48 + d"
  by (simp add: digit_char_def)

lemma is_digit_digit_char: "d < 10 \<Longrightarrow> is_digit (digit_char d)"
  by (simp add: is_digit_def of_char_digit_char)

lemma digit_val_digit_char: "d < 10 \<Longrightarrow> digit_val (digit_char d) = d"
  by (simp add: digit_val_def of_char_digit_char)

lemma show_nat_digits: "c \<in> set (show_nat n) \<Longrightarrow> is_digit c"
proof (induction n arbitrary: c rule: show_nat.induct)
  case (1 n)
  show ?case
  proof (cases "n < 10")
    case True
    with "1.prems" show ?thesis
      by (simp add: show_nat.simps [of n] is_digit_digit_char)
  next
    case False
    with "1.prems" "1.IH" show ?thesis
      by (auto simp add: show_nat.simps [of n] is_digit_digit_char)
  qed
qed

lemma show_nat_nonempty: "show_nat n \<noteq> []"
  by (subst show_nat.simps) simp

lemma nat_of_digits_snoc: "nat_of_digits (ds @ [c]) = 10 * nat_of_digits ds + digit_val c"
  by (simp add: nat_of_digits_def)

lemma nat_of_digits_show_nat: "nat_of_digits (show_nat n) = n"
proof (induction n rule: show_nat.induct)
  case (1 n)
  show ?case
  proof (cases "n < 10")
    case True
    then show ?thesis
      by (simp add: show_nat.simps [of n] nat_of_digits_def digit_val_digit_char)
  next
    case False
    with "1.IH" show ?thesis
      by (simp add: show_nat.simps [of n] nat_of_digits_snoc digit_val_digit_char)
  qed
qed

lemma show_nat_leading_zero: "hd (show_nat n) = CHR ''0'' \<Longrightarrow> show_nat n = ''0''"
proof (induction n rule: show_nat.induct)
  case (1 n)
  show ?case
  proof (cases "n < 10")
    case True
    with "1.prems" have "digit_char n = CHR ''0''"
      by (simp add: show_nat.simps [of n])
    with True show ?thesis
      by (simp add: show_nat.simps [of n])
  next
    case False
    with "1.prems" have "hd (show_nat (n div 10)) = CHR ''0''"
      by (simp add: show_nat.simps [of n] show_nat_nonempty)
    with False "1.IH" have "show_nat (n div 10) = ''0''"
      by simp
    then have "nat_of_digits (show_nat (n div 10)) = 0"
      by (simp add: nat_of_digits_def digit_val_def)
    with False show ?thesis
      by (simp add: nat_of_digits_show_nat)
  qed
qed

lemma parse_number_digits:
  assumes ds: "ds \<noteq> []" "\<forall>x \<in> set ds. is_digit x" "hd ds = CHR ''0'' \<longrightarrow> tl ds = []"
    and c: "c = CHR '','' \<or> c = CHR '']'' \<or> c = CHR ''}''"
  shows "parse_number (ds @ c # r) = Some (JNum (of_nat (nat_of_digits ds)), c # r)"
proof -
  from c have nd: "\<not> is_digit c" and c': "c \<noteq> CHR ''.''" "c \<noteq> CHR ''e''" "c \<noteq> CHR ''E''"
    by (auto simp add: is_digit_def)
  from ds obtain d ds' where d: "ds = d # ds'"
    by (cases ds) auto
  with ds have "is_digit d" by simp
  then have minus: "d \<noteq> CHR ''-''"
    by (auto simp add: is_digit_def)
  have tw: "takeWhile is_digit (d # ds' @ c # r) = d # ds'"
    using ds(2) nd by (simp add: d)
  have dw: "dropWhile is_digit (d # ds' @ c # r) = c # r"
    using ds(2) nd by (simp add: d)
  have frac: "parse_fraction (c # r) = Some (0, c # r)"
    using c' by (simp add: parse_fraction_def)
  have ex: "parse_exponent (c # r) = Some (0, c # r)"
    using c' by (simp add: parse_exponent_def)
  have "parse_number (d # ds' @ c # r) = Some (JNum (of_nat (nat_of_digits (d # ds'))), c # r)"
    using ds(3) by (simp add: parse_number_def Let_def minus tw dw frac ex d
                         del: takeWhile.simps dropWhile.simps)
  then show ?thesis
    by (simp add: d)
qed

lemma parse_number_show_nat:
  assumes "c = CHR '','' \<or> c = CHR '']'' \<or> c = CHR ''}''"
  shows "parse_number (show_nat n @ c # r) = Some (JNum (of_nat n), c # r)"
proof -
  have "hd (show_nat n) = CHR ''0'' \<longrightarrow> tl (show_nat n) = []"
    using show_nat_leading_zero [of n] by auto
  with parse_number_digits [OF show_nat_nonempty _ _ assms, of n r]
  show ?thesis
    by (simp add: show_nat_digits nat_of_digits_show_nat)
qed

subsection \<open>Strings\<close>

lemma hex_val_hex_char: "d < 16 \<Longrightarrow> hex_val (hex_char d) = Some d"
  by (auto simp add: hex_val_def hex_char_def Let_def)

lemma hex_val_zero: "hex_val CHR ''0'' = Some 0"
  by (simp add: hex_val_def)

lemma parse_string_escape:
  "parse_string (escape c @ s) = map_option (apfst ((#) (of_char c))) (parse_string s)"
proof -
  let ?n = "of_char c :: nat"
  have q: "c = CHR 0x22 \<longleftrightarrow> ?n = 34" and b: "c = CHR 0x5C \<longleftrightarrow> ?n = 92"
    by (simp_all add: char_eq_code [of c])
  consider "?n = 34" | "?n = 92" | "?n = 8" | "?n = 12" | "?n = 10" | "?n = 13" | "?n = 9"
    | "?n < 32" "?n \<noteq> 8" "?n \<noteq> 12" "?n \<noteq> 10" "?n \<noteq> 13" "?n \<noteq> 9"
    | "32 \<le> ?n" "?n \<noteq> 34" "?n \<noteq> 92"
    by linarith
  then show ?thesis
  proof cases
    case 8
    then have "?n div 16 < 16" "?n mod 16 < 16" "16 * (?n div 16) + ?n mod 16 = ?n"
      by simp_all
    with 8 show ?thesis
      by (simp add: escape_def Let_def unescape_def hex_val_hex_char hex_val_zero)
  next
    case 9
    then show ?thesis
      by (simp add: escape_def Let_def q b)
  qed (simp_all add: escape_def Let_def unescape_def)
qed

lemma parse_string_Quote_tail:
  "parse_string (concat (map escape s) @ CHR 0x22 # rest) = Some (units s, rest)"
  by (induction s) (simp_all add: units_def parse_string_escape del: parse_string.simps(2), simp)

subsection \<open>Values\<close>

lemma skip_ws_Cons: "\<not> is_ws c \<Longrightarrow> skip_ws (c # r) = c # r"
  by (simp add: skip_ws_def)

lemma parse_value_Quote:
  "parse_value (Suc n) (Quote s @ rest) = Some (JStr (units s), rest)"
  by (simp add: Quote_def skip_ws_Cons is_ws_def parse_scalar_def parse_string_Quote_tail)

lemma parse_value_show_nat:
  assumes "c = CHR '','' \<or> c = CHR '']'' \<or> c = CHR ''}''"
  shows "parse_value (Suc n) (show_nat k @ c # r) = Some (JNum (of_nat k), c # r)"
proof -
  obtain d ds where ds: "show_nat k = d # ds"
    using show_nat_nonempty [of k] by (cases "show_nat k") auto
  then have "is_digit d"
    using show_nat_digits [of d k] by simp
  then have d: "\<not> is_ws d" "d \<noteq> CHR ''[''" "d \<noteq> CHR ''{''" "d \<noteq> CHR 0x22"
    "d \<noteq> CHR ''t''" "d \<noteq> CHR ''f''" "d \<noteq> CHR ''n''"
    by (auto simp add: is_digit_def is_ws_def)
  have "parse_value (Suc n) (d # ds @ c # r) = parse_number (d # ds @ c # r)"
    using d by (simp add: skip_ws_Cons parse_scalar_def)
  with parse_number_show_nat [OF assms, of k r] show ?thesis
    by (simp add: ds)
qed

lemma parse_elems_join:
  assumes "\<And>t x m c r. (t, x) \<in> set xs \<Longrightarrow> length t < m \<Longrightarrow>
             c = CHR '','' \<or> c = CHR '']'' \<Longrightarrow> parse_value m (t @ c # r) = Some (x, c # r)"
    and "xs \<noteq> []" and "length (join '','' (map fst xs)) + 1 < f"
  shows "parse_elems f acc (join '','' (map fst xs) @ CHR '']'' # rest) =
           Some (JArr (acc @ map snd xs), rest)"
  using assms
proof (induction xs arbitrary: f acc)
  case Nil
  then show ?case by simp
next
  case (Cons p xs)
  obtain t x where p: "p = (t, x)" by (cases p)
  from Cons.prems(3) obtain m where f: "f = Suc m" and m: "length t < m"
    by (cases f; cases xs) (auto simp add: p)
  have ws: "skip_ws (c # r) = c # r" if "c = CHR '','' \<or> c = CHR '']''" for c r
    using that by (auto simp add: skip_ws_Cons is_ws_def)
  show ?case
  proof (cases xs)
    case Nil
    have "parse_value m (t @ CHR '']'' # rest) = Some (x, CHR '']'' # rest)"
      using Cons.prems(1) [of t x m "CHR '']''" rest] m by (simp add: p)
    then show ?thesis
      by (simp add: Nil p f ws)
  next
    case (Cons q ys)
    let ?tail = "join '','' (map fst xs) @ CHR '']'' # rest"
    have "parse_value m (t @ CHR '','' # ?tail) = Some (x, CHR '','' # ?tail)"
      using Cons.prems(1) [of t x m "CHR '',''" ?tail] m by (simp add: p)
    moreover have "parse_elems m (acc @ [x]) ?tail = Some (JArr ((acc @ [x]) @ map snd xs), rest)"
    proof (rule Cons.IH)
      show "xs \<noteq> []" by (simp add: Cons)
      show "length (join '','' (map fst xs)) + 1 < m"
        using Cons.prems(3) by (simp add: Cons p f)
      show "parse_value m' (t' @ c # r) = Some (x', c # r)"
        if "(t', x') \<in> set xs" "length t' < m'" "c = CHR '','' \<or> c = CHR '']''"
        for t' x' m' c r
        using Cons.prems(1) [of t' x' m' c r] that by simp
    qed
    ultimately show ?thesis
      by (simp add: Cons p f ws)
  qed
qed

lemma parse_members_join:
  assumes "\<And>k t x m c r. (k, t, x) \<in> set kvs \<Longrightarrow> length t < m \<Longrightarrow>
             c = CHR '','' \<or> c = CHR ''}'' \<Longrightarrow> parse_value m (t @ c # r) = Some (x, c # r)"
    and "kvs \<noteq> []"
    and "length (join '','' (map (\<lambda>(k, t, x). Quote k @ CHR '':'' # t) kvs)) + 1 < f"
  shows "parse_members f acc
           (join '','' (map (\<lambda>(k, t, x). Quote k @ CHR '':'' # t) kvs) @ CHR ''}'' # rest) =
         Some (JObj (foldl (\<lambda>a (k, t, x). AList.update (units k) x a) acc kvs), rest)"
  using assms
proof (induction kvs arbitrary: f acc)
  case Nil
  then show ?case by simp
next
  case (Cons p kvs)
  obtain k t x where p: "p = (k, t, x)" by (cases p)
  from Cons.prems(3) obtain m where f: "f = Suc m" and m: "length t < m"
    by (cases f; cases kvs) (auto simp add: p)
  have ws: "skip_ws (c # r) = c # r"
    if "c = CHR '','' \<or> c = CHR ''}'' \<or> c = CHR '':'' \<or> c = CHR 0x22" for c r
    using that by (auto simp add: skip_ws_Cons is_ws_def)
  have key: "parse_string (concat (map escape k) @ CHR 0x22 # CHR '':'' # s) =
      Some (units k, CHR '':'' # s)" for s
    by (rule parse_string_Quote_tail)
  show ?case
  proof (cases kvs)
    case Nil
    have "parse_value m (t @ CHR ''}'' # rest) = Some (x, CHR ''}'' # rest)"
      using Cons.prems(1) [of k t x m "CHR ''}''" rest] m by (simp add: p)
    then show ?thesis
      by (simp add: Nil p f ws Quote_def key)
  next
    case (Cons q ys)
    let ?tail = "join '','' (map (\<lambda>(k, t, x). Quote k @ CHR '':'' # t) kvs) @ CHR ''}'' # rest"
    have "parse_value m (t @ CHR '','' # ?tail) = Some (x, CHR '','' # ?tail)"
      using Cons.prems(1) [of k t x m "CHR '',''" ?tail] m by (simp add: p)
    moreover have "parse_members m (AList.update (units k) x acc) ?tail =
        Some (JObj (foldl (\<lambda>a (k, t, x). AList.update (units k) x a)
                      (AList.update (units k) x acc) kvs), rest)"
    proof (rule Cons.IH)
      show "kvs \<noteq> []" by (simp add: Cons)
      show "length (join '','' (map (\<lambda>(k, t, x). Quote k @ CHR '':'' # t) kvs)) + 1 < m"
        using Cons.prems(3) by (simp add: Cons p f)
      show "parse_value m' (t' @ c # r) = Some (x', c # r)"
        if "(k', t', x') \<in> set kvs" "length t' < m'" "c = CHR '','' \<or> c = CHR ''}''"
        for k' t' x' m' c r
        using Cons.prems(1) [of k' t' x' m' c r] that by simp
    qed
    ultimately show ?thesis
      by (simp add: Cons p f ws Quote_def key)
  qed
qed

text \<open>An array and an object with at least one part, and the empty ones.\<close>

lemma parse_value_array:
  assumes "\<And>t x m c r. (t, x) \<in> set xs \<Longrightarrow> length t < m \<Longrightarrow>
             c = CHR '','' \<or> c = CHR '']'' \<Longrightarrow> parse_value m (t @ c # r) = Some (x, c # r)"
    and "length (CHR ''['' # join '','' (map fst xs) @ '']'') < n"
    and "\<And>t x. (t, x) \<in> set xs \<Longrightarrow> t \<noteq> [] \<and> \<not> is_ws (hd t) \<and> hd t \<noteq> CHR '']''"
  shows "parse_value n (CHR ''['' # join '','' (map fst xs) @ CHR '']'' # rest) =
           Some (JArr (map snd xs), rest)"
proof (cases xs)
  case Nil
  from assms(2) obtain m where "n = Suc m" by (cases n) auto
  then show ?thesis
    by (simp add: Nil skip_ws_Cons is_ws_def)
next
  case (Cons p ys)
  obtain t x where p: "p = (t, x)" by (cases p)
  from assms(2) obtain m where n: "n = Suc m" and m: "length (join '','' (map fst xs)) + 1 < m"
    by (cases n) auto
  from assms(3) [of t x] obtain d t' where t: "t = d # t'" "\<not> is_ws d" "d \<noteq> CHR '']''"
    by (cases t) (auto simp add: Cons p)
  have first: "skip_ws (join '','' (map fst xs) @ CHR '']'' # rest) =
      d # tl (join '','' (map fst xs) @ CHR '']'' # rest)"
    using t by (cases ys) (simp_all add: Cons p skip_ws_Cons)
  have "parse_elems m [] (join '','' (map fst xs) @ CHR '']'' # rest) =
      Some (JArr ([] @ map snd xs), rest)"
  proof (rule parse_elems_join [OF assms(1) _ m])
    show "xs \<noteq> []" by (simp add: Cons)
  qed
  then show ?thesis
    using t by (simp add: n first skip_ws_Cons is_ws_def)
qed

lemma parse_value_object:
  assumes "\<And>k t x m c r. (k, t, x) \<in> set kvs \<Longrightarrow> length t < m \<Longrightarrow>
             c = CHR '','' \<or> c = CHR ''}'' \<Longrightarrow> parse_value m (t @ c # r) = Some (x, c # r)"
    and "length (CHR ''{'' # join '','' (map (\<lambda>(k, t, x). Quote k @ CHR '':'' # t) kvs) @ ''}'') < n"
  shows "parse_value n
           (CHR ''{'' # join '','' (map (\<lambda>(k, t, x). Quote k @ CHR '':'' # t) kvs) @
            CHR ''}'' # rest) =
         Some (JObj (foldl (\<lambda>a (k, t, x). AList.update (units k) x a) [] kvs), rest)"
proof (cases kvs)
  case Nil
  from assms(2) obtain m where "n = Suc m" by (cases n) auto
  then show ?thesis
    by (simp add: Nil skip_ws_Cons is_ws_def)
next
  case (Cons p ys)
  obtain k t x where p: "p = (k, t, x)" by (cases p)
  let ?text = "join '','' (map (\<lambda>(k, t, x). Quote k @ CHR '':'' # t) kvs)"
  from assms(2) obtain m where n: "n = Suc m" and m: "length ?text + 1 < m"
    by (cases n) auto
  have first: "skip_ws (?text @ CHR ''}'' # rest) = CHR 0x22 # tl (?text @ CHR ''}'' # rest)"
    by (cases ys) (simp_all add: Cons p skip_ws_Cons is_ws_def Quote_def)
  have "parse_members m [] (?text @ CHR ''}'' # rest) =
      Some (JObj (foldl (\<lambda>a (k, t, x). AList.update (units k) x a) [] kvs), rest)"
  proof (rule parse_members_join [OF assms(1) _ m])
    show "kvs \<noteq> []" by (simp add: Cons)
  qed
  then show ?thesis
    by (simp add: n first skip_ws_Cons is_ws_def)
qed

subsection \<open>The parts of a stored payload\<close>

lemma units_eq_iff: "units a = units b \<longleftrightarrow> a = b"
  by (simp add: units_def inj_of_char)

lemma parse_value_hval:
  assumes "length (stringify_hval v) < m" and "c = CHR '','' \<or> c = CHR ''}''"
  shows "parse_value m (stringify_hval v @ c # r) = Some (js_of_hval v, c # r)"
proof (cases v)
  case (HStr s)
  from assms(1) obtain n where "m = Suc n" by (cases m) auto
  then show ?thesis
    by (simp add: HStr parse_value_Quote del: parse_value.simps)
next
  case (HArr xs)
  let ?xs = "map (\<lambda>s. (Quote s, JStr (units s))) xs"
  have "parse_value m (CHR ''['' # join '','' (map fst ?xs) @ CHR '']'' # c # r) =
      Some (JArr (map snd ?xs), c # r)"
  proof (rule parse_value_array)
    show "length (CHR ''['' # join '','' (map fst ?xs) @ '']'') < m"
      using assms(1) by (simp add: HArr comp_def)
    show "parse_value m' (t @ d # r') = Some (x, d # r')"
      if "(t, x) \<in> set ?xs" "length t < m'" "d = CHR '','' \<or> d = CHR '']''" for t x m' d r'
    proof -
      from that(2) obtain n where "m' = Suc n" by (cases m') auto
      with that(1) show ?thesis
        by (auto simp add: parse_value_Quote simp del: parse_value.simps)
    qed
    show "t \<noteq> [] \<and> \<not> is_ws (hd t) \<and> hd t \<noteq> CHR '']''" if "(t, x) \<in> set ?xs" for t x
      using that by (auto simp add: Quote_def is_ws_def)
  qed
  then show ?thesis
    by (simp add: HArr comp_def)
qed

lemma foldl_update_fresh:
  "distinct (map fst h) \<Longrightarrow> \<forall>k \<in> fst ` set h. units k \<notin> fst ` set acc \<Longrightarrow>
   foldl (\<lambda>a (k, t, x). AList.update (units k) x a) acc
         (map (\<lambda>(k, v). (k, stringify_hval v, js_of_hval v)) h) =
     acc @ map (\<lambda>(k, v). (units k, js_of_hval v)) h"
proof (induction h arbitrary: acc)
  case Nil
  then show ?case by simp
next
  case (Cons p h)
  obtain k v where p: "p = (k, v)" by (cases p)
  from Cons.prems have fresh: "units k \<notin> fst ` set acc"
    by (simp add: p)
  have "foldl (\<lambda>a (k, t, x). AList.update (units k) x a) (acc @ [(units k, js_of_hval v)])
          (map (\<lambda>(k, v). (k, stringify_hval v, js_of_hval v)) h) =
        (acc @ [(units k, js_of_hval v)]) @ map (\<lambda>(k, v). (units k, js_of_hval v)) h"
  proof (rule Cons.IH)
    show "distinct (map fst h)"
      using Cons.prems(1) by simp
    show "\<forall>k' \<in> fst ` set h. units k' \<notin> fst ` set (acc @ [(units k, js_of_hval v)])"
      using Cons.prems by (auto simp add: p units_eq_iff)
  qed
  then show ?case
    by (simp add: p update_fresh [OF fresh])
qed

lemma parse_value_headers:
  assumes "distinct (map fst h)" and "length (stringify_headers h) < m"
  shows "parse_value m (stringify_headers h @ rest) = Some (js_of_headers h, rest)"
proof -
  let ?kvs = "map (\<lambda>(k, v). (k, stringify_hval v, js_of_hval v)) h"
  have shape: "map (\<lambda>(k, t, x). Quote k @ CHR '':'' # t) ?kvs =
      map (\<lambda>(k, v). Quote k @ '':'' @ stringify_hval v) h"
    by (simp add: comp_def case_prod_unfold)
  have "parse_value m
      (CHR ''{'' # join '','' (map (\<lambda>(k, t, x). Quote k @ CHR '':'' # t) ?kvs) @ CHR ''}'' # rest) =
      Some (JObj (foldl (\<lambda>a (k, t, x). AList.update (units k) x a) [] ?kvs), rest)"
  proof (rule parse_value_object)
    show "length (CHR ''{'' # join '','' (map (\<lambda>(k, t, x). Quote k @ CHR '':'' # t) ?kvs) @ ''}'') < m"
      using assms(2) by (simp only: shape) (simp add: stringify_headers_def)
    show "parse_value m' (t @ c # r) = Some (x, c # r)"
      if "(k, t, x) \<in> set ?kvs" "length t < m'" "c = CHR '','' \<or> c = CHR ''}''" for k t x m' c r
      using that by (auto simp add: parse_value_hval)
  qed
  then show ?thesis
    using foldl_update_fresh [OF assms(1), of "[]"]
    by (simp only: shape) (simp add: stringify_headers_def js_of_headers_def)
qed

lemma parse_value_octets:
  assumes "length (CHR ''['' # join '','' (map (\<lambda>w. show_nat (unat w)) (b :: Buffer)) @ '']'') < m"
  shows "parse_value m (CHR ''['' # join '','' (map (\<lambda>w. show_nat (unat w)) b) @ CHR '']'' # rest) =
           Some (JArr (map (\<lambda>w. JNum (of_nat (unat w))) b), rest)"
proof -
  let ?xs = "map (\<lambda>w. (show_nat (unat w), JNum (of_nat (unat w)))) (b :: Buffer)"
  have "parse_value m (CHR ''['' # join '','' (map fst ?xs) @ CHR '']'' # rest) =
      Some (JArr (map snd ?xs), rest)"
  proof (rule parse_value_array)
    show "length (CHR ''['' # join '','' (map fst ?xs) @ '']'') < m"
      using assms by (simp add: comp_def)
    show "parse_value m' (t @ d # r') = Some (x, d # r')"
      if "(t, x) \<in> set ?xs" "length t < m'" "d = CHR '','' \<or> d = CHR '']''" for t x m' d r'
    proof -
      from that(2) obtain n where "m' = Suc n" by (cases m') auto
      with that(1, 3) show ?thesis
        by (auto simp add: parse_value_show_nat simp del: parse_value.simps)
    qed
    show "t \<noteq> [] \<and> \<not> is_ws (hd t) \<and> hd t \<noteq> CHR '']''" if "(t, x) \<in> set ?xs" for t x
    proof -
      from that obtain w :: "8 word" where t: "t = show_nat (unat w)" by auto
      then have "t \<noteq> []" by (simp add: show_nat_nonempty)
      moreover from this have "is_digit (hd t)"
        using show_nat_digits [of "hd t" "unat w"] by (simp add: t)
      ultimately show ?thesis
        by (auto simp add: is_digit_def is_ws_def)
    qed
  qed
  then show ?thesis
    by (simp add: comp_def)
qed

lemma parse_value_Buffer:
  assumes "length (stringify_Buffer b) < m"
  shows "parse_value m (stringify_Buffer b @ rest) = Some (toJSON b, rest)"
proof -
  let ?data = "CHR ''['' # join '','' (map (\<lambda>w. show_nat (unat w)) b) @ '']''"
  let ?kvs = "[(''type'', Quote ''Buffer'', JStr (units ''Buffer'')),
               (''data'', ?data, JArr (map (\<lambda>w. JNum (of_nat (unat w))) b))]"
  have shape: "stringify_Buffer b @ rest =
      CHR ''{'' # join '','' (map (\<lambda>(k, t, x). Quote k @ CHR '':'' # t) ?kvs) @ CHR ''}'' # rest"
    by (simp add: stringify_Buffer_def)
  have "parse_value m
      (CHR ''{'' # join '','' (map (\<lambda>(k, t, x). Quote k @ CHR '':'' # t) ?kvs) @ CHR ''}'' # rest) =
      Some (JObj (foldl (\<lambda>a (k, t, x). AList.update (units k) x a) [] ?kvs), rest)"
  proof (rule parse_value_object)
    show "length (CHR ''{'' # join '','' (map (\<lambda>(k, t, x). Quote k @ CHR '':'' # t) ?kvs) @ ''}'') < m"
      using assms by (simp add: stringify_Buffer_def)
    show "parse_value m' (t @ c # r) = Some (x, c # r)"
      if "(k, t, x) \<in> set ?kvs" "length t < m'" "c = CHR '','' \<or> c = CHR ''}''" for k t x m' c r
    proof -
      from that(2) obtain n where n: "m' = Suc n" by (cases m') auto
      from that(1) consider "t = Quote ''Buffer''" "x = JStr (units ''Buffer'')"
        | "t = ?data" "x = JArr (map (\<lambda>w. JNum (of_nat (unat w))) b)"
        by auto
      then show ?thesis
      proof cases
        case 1
        then show ?thesis
          by (simp only: n parse_value_Quote)
      next
        case 2
        with that(2) parse_value_octets [of b m' "c # r"] show ?thesis
          by simp
      qed
    qed
  qed
  then show ?thesis
    by (simp only: shape) (simp add: toJSON_def units_eq_iff)
qed

lemma JSON_parse_stringify:
  assumes "distinct (map fst (cache_headers c))"
  shows "JSON_parse (JSON_stringify c) = Some (json_of_cacheObj c)"
proof -
  let ?kvs = "[(''statusCode'', show_nat (statusCode c), JNum (of_nat (statusCode c))),
               (''headers'', stringify_headers (cache_headers c), js_of_headers (cache_headers c)),
               (''content'', stringify_Buffer (content c), toJSON (content c))]"
  have shape: "JSON_stringify c =
      CHR ''{'' # join '','' (map (\<lambda>(k, t, x). Quote k @ CHR '':'' # t) ?kvs) @ CHR ''}'' # []"
    by (simp add: JSON_stringify_def)
  have "parse_value (Suc (length (JSON_stringify c)))
      (CHR ''{'' # join '','' (map (\<lambda>(k, t, x). Quote k @ CHR '':'' # t) ?kvs) @ CHR ''}'' # []) =
      Some (JObj (foldl (\<lambda>a (k, t, x). AList.update (units k) x a) [] ?kvs), [])"
  proof (rule parse_value_object)
    show "length (CHR ''{'' # join '','' (map (\<lambda>(k, t, x). Quote k @ CHR '':'' # t) ?kvs) @ ''}'')
        < Suc (length (JSON_stringify c))"
      by (subst shape) simp
    show "parse_value m' (t @ d # r) = Some (x, d # r)"
      if "(k, t, x) \<in> set ?kvs" "length t < m'" "d = CHR '','' \<or> d = CHR ''}''" for k t x m' d r
    proof -
      from that(2) obtain n where n: "m' = Suc n" by (cases m') auto
      from that(1) consider
          "t = show_nat (statusCode c)" "x = JNum (of_nat (statusCode c))"
        | "t = stringify_headers (cache_headers c)" "x = js_of_headers (cache_headers c)"
        | "t = stringify_Buffer (content c)" "x = toJSON (content c)"
        by auto
      then show ?thesis
      proof cases
        case 1
        from that(3) have "d = CHR '','' \<or> d = CHR '']'' \<or> d = CHR ''}''"
          by auto
        then have "parse_value (Suc n) (show_nat (statusCode c) @ d # r) =
            Some (JNum (of_nat (statusCode c)), d # r)"
          by (rule parse_value_show_nat)
        with 1 show ?thesis
          by (simp only: n)
      next
        case 2
        with that(2) parse_value_headers [OF assms, of m' "d # r"] show ?thesis
          by simp
      next
        case 3
        with that(2) parse_value_Buffer [of "content c" m' "d # r"] show ?thesis
          by simp
      qed
    qed
  qed
  then have "parse_value (Suc (length (JSON_stringify c))) (JSON_stringify c) =
      Some (json_of_cacheObj c, [])"
    by (simp only: shape [symmetric]) (simp add: json_of_cacheObj_def units_eq_iff)
  then show ?thesis
    by (simp add: JSON_parse_def skip_ws_def)
qed

subsection \<open>The reviver on a parsed payload\<close>

lemma reviver_JStr: "reviver E (JStr s) = Inr (JStr s)"
  by (simp add: reviver_def get_def)

lemma reviver_JNum: "reviver E (JNum q) = Inr (JNum q)"
  by (simp add: reviver_def get_def)

lemma reviver_JArr: "reviver E (JArr xs) = Inr (JArr xs)"
  by (simp add: reviver_def get_def)

lemma internalize_strings:
  "internalize_elems (reviver E) (map (\<lambda>s. JStr (units s)) xs) = Inr (map (\<lambda>s. JStr (units s)) xs)"
  by (induction xs) (simp_all add: reviver_JStr)

lemma internalize_numbers:
  "internalize_elems (reviver E) (map (\<lambda>w. JNum (f w)) xs) = Inr (map (\<lambda>w. JNum (f w)) xs)"
  by (induction xs) (simp_all add: reviver_JNum)

lemma internalize_hval: "internalize (reviver E) (js_of_hval v) = Inr (js_of_hval v)"
  by (cases v) (simp_all add: reviver_JStr reviver_JArr internalize_strings)

lemma js_of_hval_defined: "js_of_hval v \<noteq> JUndefined"
  by (cases v) simp_all

lemma internalize_header_props:
  "internalize_props (reviver E) (map (\<lambda>(k, v). (units k, js_of_hval v)) h) =
     Inr (map (\<lambda>(k, v). (units k, js_of_hval v)) h)"
  by (induction h) (auto simp add: internalize_hval js_of_hval_defined)

lemma map_of_units:
  "map_of (map (\<lambda>(k, v). (units k, js_of_hval v)) h) (units k) = map_option js_of_hval (map_of h k)"
  by (induction h) (auto simp add: units_eq_iff)

lemma js_of_hval_Buffer: "js_of_hval v = JStr (units ''Buffer'') \<longleftrightarrow> v = HStr ''Buffer''"
  by (cases v) (auto simp add: units_eq_iff)

lemma internalize_headers:
  assumes "map_of h ''type'' \<noteq> Some (HStr ''Buffer'')"
  shows "internalize (reviver E) (js_of_headers h) = Inr (js_of_headers h)"
proof -
  have "get (js_of_headers h) ''type'' \<noteq> Inr (JStr (units ''Buffer''))"
    using assms
    by (cases "map_of h ''type''")
       (simp_all add: get_def js_of_headers_def map_of_units js_of_hval_Buffer)
  then have "reviver E (js_of_headers h) = Inr (js_of_headers h)"
    by (simp add: reviver_def)
  then show ?thesis
    by (simp add: js_of_headers_def internalize_header_props)
qed

lemma ToUint8_of_nat: "ToUint8 (of_nat n) = word_of_int (int n)"
  by (simp add: ToUint8_def)

lemma ToUint8_octet: "ToUint8 (unsigned (w :: 8 word)) = w"
proof -
  have "ToUint8 (of_nat (unat w)) = word_of_int (int (unat w))"
    by (rule ToUint8_of_nat)
  then show ?thesis
    by simp
qed

lemma those_octets:
  "those (map (octet \<circ> (\<lambda>w. JNum (unsigned w))) (b :: Buffer)) = Some b"
  by (induction b) (simp_all add: ToUint8_octet)

lemma newBuffer_octets:
  "newBuffer E (JArr (map (\<lambda>w. JNum (of_nat (unat w))) (b :: Buffer))) = Inr (JBuf b)"
  by (simp add: newBuffer_def those_octets)

lemma internalize_toJSON: "internalize (reviver E) (toJSON b) = Inr (JBuf b)"
proof -
  have t: "truthy (toJSON b)"
    by (simp add: toJSON_def)
  have g1: "get (toJSON b) ''type'' = Inr (JStr (units ''Buffer''))"
    by (simp add: toJSON_def get_def)
  have g2: "get (toJSON b) ''data'' = Inr (JArr (map (\<lambda>w. JNum (of_nat (unat w))) b))"
    by (simp add: toJSON_def get_def units_eq_iff)
  have "reviver E (toJSON b) = Inr (JBuf b)"
    by (simp only: reviver_def t g1 g2 newBuffer_octets simp_thms if_True sum.case)
  then show ?thesis
    by (simp add: toJSON_def reviver_JStr reviver_JArr internalize_numbers)
qed

lemma internalize_json_of_cacheObj:
  assumes "map_of (cache_headers c) ''type'' \<noteq> Some (HStr ''Buffer'')"
  shows "internalize (reviver E) (json_of_cacheObj c) = Inr (js_of_cacheObj c)"
proof -
  have "reviver E (js_of_cacheObj c) = Inr (js_of_cacheObj c)"
    by (simp add: reviver_def js_of_cacheObj_def get_def units_eq_iff)
  moreover have "js_of_headers (cache_headers c) \<noteq> JUndefined"
    by (simp add: js_of_headers_def)
  ultimately show ?thesis
    using internalize_headers [OF assms, of E] internalize_toJSON [of E "content c"]
    by (simp add: json_of_cacheObj_def js_of_cacheObj_def reviver_JNum)
qed

text \<open>
  The round trip of a serialized \<^verbatim>\<open>cacheObj\<close>, when its header map has each name once
  and no header named \<^verbatim>\<open>type\<close> with the value \<^verbatim>\<open>Buffer\<close>.
\<close>

lemma roundtrip:
  assumes "distinct (map fst (cache_headers c))"
    and "map_of (cache_headers c) ''type'' \<noteq> Some (HStr ''Buffer'')"
  shows "JSON_parse_reviver (reviver E) (JSON_stringify c) = Inr (js_of_cacheObj c)"
  by (simp add: JSON_parse_reviver_def JSON_parse_stringify [OF assms(1)]
                internalize_json_of_cacheObj [OF assms(2)])

text \<open>With such a header the header map itself is taken for a Buffer, and decoding fails.\<close>

lemma roundtrip_type_Buffer:
  assumes "distinct (map fst (cache_headers c))"
    and "map_of (cache_headers c) ''type'' = Some (HStr ''Buffer'')"
    and "map_of (cache_headers c) ''data'' = None"
  shows "JSON_parse_reviver (reviver E) (JSON_stringify c) = Inl TypeError"
proof -
  have t: "get (js_of_headers (cache_headers c)) ''type'' = Inr (JStr (units ''Buffer''))"
    using assms(2) by (simp add: get_def js_of_headers_def map_of_units)
  have d: "get (js_of_headers (cache_headers c)) ''data'' = Inr JUndefined"
    using assms(3) by (simp add: get_def js_of_headers_def map_of_units)
  have "reviver E (js_of_headers (cache_headers c)) = Inl TypeError"
    by (simp add: reviver_def t d newBuffer_def) (simp add: js_of_headers_def)
  then have "internalize (reviver E) (js_of_headers (cache_headers c)) = Inl TypeError"
    by (simp add: js_of_headers_def internalize_header_props)
  then have "internalize (reviver E) (json_of_cacheObj c) = Inl TypeError"
    by (simp add: json_of_cacheObj_def reviver_JNum)
  then show ?thesis
    by (simp add: JSON_parse_reviver_def JSON_parse_stringify [OF assms(1)])
qed

text \<open>Scenario B of the specification: a fetch, then a hit that returns the same value.\<close>

lemma fetch_then_hit:
  assumes "store w ''lock'' \<noteq> Some ''true''" and "store w rid = None"
    and "origin E (fetchOptions req body) = Inr rr"
    and "map_of (removeProxyHeaders (res_headers rr)) ''type'' \<noteq> Some (HStr ''Buffer'')"
  shows "fst (makeAPIRequest E' req' body' rid (snd (makeAPIRequest E req body rid w))) =
           fst (makeAPIRequest E req body rid w) \<and>
         effects E' req' body' rid (snd (makeAPIRequest E req body rid w)) =
           [Get ''lock'', Get rid]"
proof -
  let ?c = "cacheObj_of rr"
  let ?w = "snd (makeAPIRequest E req body rid w)"
  have first: "makeAPIRequest E req body rid w =
      (Inr (js_of_cacheObj ?c),
       w\<lparr>store := (store w)(rid \<mapsto> JSON_stringify ?c),
         trace := trace w @ [Get ''lock'', Get rid, Put rid ''__REQUEST__'',
                             Fetch (fetchOptions req body), Put rid (JSON_stringify ?c)]\<rparr>)"
    using assms(1-3) by (simp add: makeAPIRequest_absent)
  have entry: "store ?w rid = Some (JSON_stringify ?c)"
    by (simp add: first)
  have flag: "store ?w ''lock'' \<noteq> Some ''true''"
    using assms(1) by (simp add: first JSON_stringify_not_sentinel)
  have "JSON_parse_reviver (reviver E') (JSON_stringify ?c) = Inr (js_of_cacheObj ?c)"
    using assms(4) by (intro roundtrip) (simp_all add: cacheObj_of_def removeProxyHeaders_distinct)
  then have "fst (makeAPIRequest E' req' body' rid ?w) = Inr (js_of_cacheObj ?c)"
    using makeAPIRequest_ready [OF flag entry JSON_stringify_not_sentinel(1,2), of E' req' body']
    by simp
  moreover have "effects E' req' body' rid ?w = [Get ''lock'', Get rid]"
    using flag entry by (simp add: effects_cases)
  ultimately show ?thesis
    by (simp add: first)
qed

section \<open>The example requests, evaluated\<close>

text \<open>The example requests, evaluated.\<close>

lemma sanitized_req0: "removeProxyHeaders (headers req0) = []"
  by code_simp

lemma sanitized_res0: "removeProxyHeaders (res_headers res0) = cache_headers cache0"
  by code_simp

lemma rid0: "getRequestId E0 req0 body0 = Inr ''u1-t1''"
  by code_simp

lemma rid_typed: "getRequestId E_typed req0 body0 = Inr ''u1-t1''"
  by code_simp

lemma store_w_entry: "store (w_entry d) ''u1-t1'' = Some d" "store (w_entry d) ''lock'' = None"
  by (simp_all add: w_entry_def)

lemma store_w_locked:
  "store (w_locked d) ''u1-t1'' = Some d" "store (w_locked d) ''lock'' = Some ''true''"
  by (simp_all add: w_locked_def)

lemma run_blocked0:
  "fst (makeAPIRequest E0 req0 body0 ''u1-t1'' (w_entry ''__BLOCK__'')) = Inl (Error ''gone'')"
  by (simp add: makeAPIRequest_blocked store_w_entry)

lemma decode_cache0:
  "JSON_parse_reviver (reviver E0) (JSON_stringify cache0) = Inr (js_of_cacheObj cache0)"
  by code_simp

lemma decode_truncated: "JSON_parse_reviver (reviver E0) ''{\"statusCode\":200'' = Inl SyntaxError"
  by code_simp

lemma decode_null: "JSON_parse_reviver (reviver E0) ''null'' = Inr JNull"
  by code_simp

lemma decode_typed:
  "JSON_parse_reviver (reviver E_typed) (JSON_stringify cache_typed) = Inl TypeError"
  by code_simp


lemma cacheObj_res0: "cacheObj_of res0 = cache0"
  by code_simp

lemma cacheObj_res_typed: "cacheObj_of res_typed = cache_typed"
  by code_simp

lemma form_empty_token: "form E0 (bytes ''api_token='') = [(''api_token'', QStr '''')]"
  by code_simp

lemma form_no_token: "form E0 (bytes ''x=1'') = [(''x'', QStr ''1'')]"
  by code_simp

lemma form_body0: "form E0 body0 = [(''api_token'', QStr ''u1'')]"
  by code_simp

lemma token_req0: "map_of (headers req0) ''cache-token'' = Some (HStr ''t1'')"
  by (simp add: req0_def)





section \<open>The claims\<close>

text \<open>
  C1. When the key has no entry (and the flag is not set), the coordinator writes the
  PENDING sentinel, then makes one request to the origin with a timeout of 180000 ms. If
  the origin answers, with whatever status code, the status, the sanitized headers and
  the raw body are stored and returned; if the request fails, the BLOCKED sentinel is
  stored and the coordinator fails with \<^verbatim>\<open>gone\<close>.
\<close>

theorem C1_absent_fetch:
  assumes "store w ''lock'' \<noteq> Some ''true''" and "store w rid = None"
  shows "let opts = \<lparr>opt_method = req_method req, opt_url = url req,
                     opt_body = (if length body > 0 then Some body else None),
                     opt_headers = removeProxyHeaders (headers req),
                     opt_encoding = None, opt_timeout = 180000\<rparr>
         in case origin E opts of
              Inr rr \<Rightarrow>
                (let c = \<lparr>statusCode = res_statusCode rr,
                          cache_headers = removeProxyHeaders (res_headers rr),
                          content = res_body rr\<rparr>
                 in makeAPIRequest E req body rid w =
                      (Inr (js_of_cacheObj c),
                       w\<lparr>store := (store w)(rid \<mapsto> JSON_stringify c),
                         trace := trace w @ [Get ''lock'', Get rid, Put rid ''__REQUEST__'',
                                             Fetch opts, Put rid (JSON_stringify c)]\<rparr>))
            | Inl err \<Rightarrow>
                makeAPIRequest E req body rid w =
                  (Inl (Error ''gone''),
                   w\<lparr>store := (store w)(rid \<mapsto> ''__BLOCK__''),
                     trace := trace w @ [Get ''lock'', Get rid, Put rid ''__REQUEST__'',
                                         Fetch opts, Put rid ''__BLOCK__'']\<rparr>)"
  using assms by (simp add: coord_defs Let_def split: sum.splits)

theorem C1_absent_fetch_witness:
  "store w0 ''lock'' \<noteq> Some ''true'' \<and> store w0 ''u1-t1'' = None \<and>
   makeAPIRequest E0 req0 body0 ''u1-t1'' w0 =
     (Inr (js_of_cacheObj cache0),
      \<lparr>store = [''u1-t1'' \<mapsto> JSON_stringify cache0],
       trace = [Get ''lock'', Get ''u1-t1'', Put ''u1-t1'' ''__REQUEST__'', Fetch opts0,
                Put ''u1-t1'' (JSON_stringify cache0)]\<rparr>) \<and>
   makeAPIRequest E_down req0 body0 ''u1-t1'' w0 =
     (Inl (Error ''gone''),
      \<lparr>store = [''u1-t1'' \<mapsto> ''__BLOCK__''],
       trace = [Get ''lock'', Get ''u1-t1'', Put ''u1-t1'' ''__REQUEST__'', Fetch opts0,
                Put ''u1-t1'' ''__BLOCK__'']\<rparr>)"
proof -
  have h1: "store w0 ''lock'' \<noteq> Some ''true''" and h2: "store w0 ''u1-t1'' = None"
    by (simp_all add: w0_def)
  have nonempty: "body0 \<noteq> []"
    by (simp add: body0_def bytes_def)
  have req: "req_method req0 = ''POST''" "url req0 = ''http://example.com/kcsapi/api_start2''"
    by (simp_all add: req0_def)
  have up: "origin E0 = (\<lambda>opts. Inr res0)"
    by (simp add: E0_def)
  have down: "origin E_down = (\<lambda>opts. Inl (Error ''ETIMEDOUT''))"
    by (simp add: E_down_def)
  have c: "\<lparr>statusCode = res_statusCode res0, cache_headers = cache_headers cache0,
            content = res_body res0\<rparr> = cache0"
    by (simp add: res0_def cache0_def)
  show ?thesis
    using h1 h2 C1_absent_fetch [OF h1 h2, of req0 body0 E0]
          C1_absent_fetch [OF h1 h2, of req0 body0 E_down]
    by (simp add: nonempty req up down c sanitized_req0 sanitized_res0 opts0_def w0_def Let_def)
qed

text \<open>
  C2. The coordinator fails with \<^verbatim>\<open>unavailable\<close>, which the pipeline turns into status
  503, exactly when the flag is set or the key's entry is the PENDING sentinel. With the
  flag set the only effect is the read of the flag; with a pending key the only effects
  are the two reads. No request goes to the origin and nothing is written.
\<close>

theorem C2_unavailable:
  "((fst (makeAPIRequest E req body rid w) = Inl (Error ''unavailable'')) =
      (store w ''lock'' = Some ''true'' \<or> store w rid = Some ''__REQUEST__'')) \<and>
   (getRequestId E req body = Inr rid \<longrightarrow>
      (fst (onAPIRequest E req body w) = ErrorPage 503) =
        (store w ''lock'' = Some ''true'' \<or> store w rid = Some ''__REQUEST__'')) \<and>
   (store w ''lock'' = Some ''true'' \<longrightarrow>
      effects E req body rid w = [Get ''lock''] \<and>
      store (snd (makeAPIRequest E req body rid w)) = store w) \<and>
   (store w ''lock'' \<noteq> Some ''true'' \<and> store w rid = Some ''__REQUEST__'' \<longrightarrow>
      effects E req body rid w = [Get ''lock'', Get rid] \<and>
      store (snd (makeAPIRequest E req body rid w)) = store w)"
proof -
  have iff: "(fst (makeAPIRequest E req body rid w) = Inl (Error ''unavailable'')) =
      (store w ''lock'' = Some ''true'' \<or> store w rid = Some ''__REQUEST__'')"
    by (auto simp add: coord_defs Let_def split: sum.splits option.splits prod.splits)
  have code: "errCode e = 503 \<longleftrightarrow> e = Error ''unavailable''" for e
    by (cases e) auto
  have page: "fst (onAPIRequest E req body w) = ErrorPage 503 \<longleftrightarrow>
      fst (makeAPIRequest E req body rid w) = Inl (Error ''unavailable'')"
    if "getRequestId E req body = Inr rid"
    using that
    by (auto simp add: onAPIRequest_def code get_def split: sum.splits prod.splits jsval.splits option.splits)
  have locked: "effects E req body rid w = [Get ''lock''] \<and>
      store (snd (makeAPIRequest E req body rid w)) = store w"
    if "store w ''lock'' = Some ''true''"
    using that by (simp add: effects_cases makeAPIRequest_locked)
  have pending: "effects E req body rid w = [Get ''lock'', Get rid] \<and>
      store (snd (makeAPIRequest E req body rid w)) = store w"
    if "store w ''lock'' \<noteq> Some ''true''" "store w rid = Some ''__REQUEST__''"
    using that by (simp add: effects_cases makeAPIRequest_pending)
  show ?thesis
    using iff page locked pending by blast
qed

theorem C2_unavailable_witness:
  "store (w_locked ''__BLOCK__'') ''lock'' = Some ''true'' \<and>
   fst (makeAPIRequest E0 req0 body0 ''u1-t1'' (w_locked ''__BLOCK__'')) =
     Inl (Error ''unavailable'') \<and>
   effects E0 req0 body0 ''u1-t1'' (w_locked ''__BLOCK__'') = [Get ''lock''] \<and>
   getRequestId E0 req0 body0 = Inr ''u1-t1'' \<and>
   fst (onAPIRequest E0 req0 body0 (w_locked ''__BLOCK__'')) = ErrorPage 503 \<and>
   store (w_entry ''__REQUEST__'') ''lock'' \<noteq> Some ''true'' \<and>
   store (w_entry ''__REQUEST__'') ''u1-t1'' = Some ''__REQUEST__'' \<and>
   fst (makeAPIRequest E0 req0 body0 ''u1-t1'' (w_entry ''__REQUEST__'')) =
     Inl (Error ''unavailable'') \<and>
   effects E0 req0 body0 ''u1-t1'' (w_entry ''__REQUEST__'') = [Get ''lock'', Get ''u1-t1'']"
  using C2_unavailable [of E0 req0 body0 "''u1-t1''" "w_locked ''__BLOCK__''"]
        C2_unavailable [of E0 req0 body0 "''u1-t1''" "w_entry ''__REQUEST__''"]
  by (simp add: rid0 store_w_entry store_w_locked)

text \<open>
  C3, as the specification has it, makes the reading of an entry total: whatever is
  neither a sentinel nor the encoding of a payload (a status code, a header map, a
  content body) is answered with \<^verbatim>\<open>gone\<close> and status 410. The stored text \<^verbatim>\<open>null\<close> is no
  such encoding, yet it decodes; the coordinator returns \<^verbatim>\<open>null\<close> and the pipeline
  answers 500.
\<close>

theorem C3_counterexample:
  "''null'' \<noteq> ''__REQUEST__'' \<and> ''null'' \<noteq> ''__BLOCK__'' \<and>
   \<not> valid_payload_encoding E0 ''null'' \<and>
   fst (makeAPIRequest E0 req0 body0 ''u1-t1'' (w_entry ''null'')) = Inr JNull \<and>
   fst (onAPIRequest E0 req0 body0 (w_entry ''null'')) = ErrorPage 500"
proof -
  have run: "makeAPIRequest E0 req0 body0 ''u1-t1'' (w_entry ''null'') =
      (Inr JNull, (w_entry ''null'')\<lparr>trace := trace (w_entry ''null'') @ [Get ''lock'', Get ''u1-t1'']\<rparr>)"
    by (simp add: makeAPIRequest_ready store_w_entry decode_null)
  have page: "fst (onAPIRequest E0 req0 body0 (w_entry ''null'')) = ErrorPage 500"
    by (simp add: onAPIRequest_def rid0 run get_def)
  have "\<not> valid_payload_encoding E0 ''null''"
    by (simp add: valid_payload_encoding_def decode_null is_payload_def get_def)
  with run page show ?thesis by simp
qed

text \<open>
  C3, amended. An entry that is the BLOCKED sentinel, or that is not the PENDING sentinel
  and on which \<^verbatim>\<open>JSON.parse\<close> with the reviver throws, is answered with \<^verbatim>\<open>gone\<close>, which
  the pipeline turns into status 410. The flag and the key are read; no request goes to
  the origin and nothing is written.
\<close>

theorem C3_gone:
  assumes "store w ''lock'' \<noteq> Some ''true''" and "store w rid = Some d"
    and "d = ''__BLOCK__'' \<or> (d \<noteq> ''__REQUEST__'' \<and> isl (JSON_parse_reviver (reviver E) d))"
  shows "makeAPIRequest E req body rid w =
           (Inl (Error ''gone''), w\<lparr>trace := trace w @ [Get ''lock'', Get rid]\<rparr>) \<and>
         effects E req body rid w = [Get ''lock'', Get rid] \<and>
         (getRequestId E req body = Inr rid \<longrightarrow>
            onAPIRequest E req body w =
              (ErrorPage 410, w\<lparr>trace := trace w @ [Get ''lock'', Get rid]\<rparr>))"
proof -
  have run: "makeAPIRequest E req body rid w =
      (Inl (Error ''gone''), w\<lparr>trace := trace w @ [Get ''lock'', Get rid]\<rparr>)"
  proof (cases "d = ''__BLOCK__''")
    case True
    with assms show ?thesis by (simp add: makeAPIRequest_blocked)
  next
    case False
    with assms have "d \<noteq> ''__REQUEST__''" and "isl (JSON_parse_reviver (reviver E) d)"
      by auto
    with assms False show ?thesis
      by (auto simp add: makeAPIRequest_ready isl_def)
  qed
  have eff: "effects E req body rid w = [Get ''lock'', Get rid]"
    using assms by (simp add: effects_cases)
  have "onAPIRequest E req body w =
      (ErrorPage 410, w\<lparr>trace := trace w @ [Get ''lock'', Get rid]\<rparr>)"
    if "getRequestId E req body = Inr rid"
    using onAPIRequest_error [OF that run] by simp
  with run eff show ?thesis by simp
qed

theorem C3_gone_witness:
  "store (w_entry ''{\"statusCode\":200'') ''lock'' \<noteq> Some ''true'' \<and>
   store (w_entry ''{\"statusCode\":200'') ''u1-t1'' = Some ''{\"statusCode\":200'' \<and>
   ''{\"statusCode\":200'' \<noteq> ''__REQUEST__'' \<and>
   JSON_parse_reviver (reviver E0) ''{\"statusCode\":200'' = Inl SyntaxError \<and>
   fst (makeAPIRequest E0 req0 body0 ''u1-t1'' (w_entry ''{\"statusCode\":200'')) =
     Inl (Error ''gone'') \<and>
   effects E0 req0 body0 ''u1-t1'' (w_entry ''{\"statusCode\":200'') = [Get ''lock'', Get ''u1-t1''] \<and>
   getRequestId E0 req0 body0 = Inr ''u1-t1'' \<and>
   fst (onAPIRequest E0 req0 body0 (w_entry ''{\"statusCode\":200'')) = ErrorPage 410"
proof -
  have h1: "store (w_entry ''{\"statusCode\":200'') ''lock'' \<noteq> Some ''true''"
    and h2: "store (w_entry ''{\"statusCode\":200'') ''u1-t1'' = Some ''{\"statusCode\":200''"
    by (simp_all add: store_w_entry)
  have h3: "''{\"statusCode\":200'' = ''__BLOCK__'' \<or>
      (''{\"statusCode\":200'' \<noteq> ''__REQUEST__'' \<and>
       isl (JSON_parse_reviver (reviver E0) ''{\"statusCode\":200''))"
    by (simp add: decode_truncated)
  show ?thesis
    using C3_gone [OF h1 h2 h3, of req0 body0]
    by (simp add: h1 h2 decode_truncated rid0)
qed



text \<open>
  C5, as the specification has it, has identity resolution fail when a token is missing
  or empty. The body \<^verbatim>\<open>api_token=\<close> carries an empty account token; with the header
  \<^verbatim>\<open>cache-token: t1\<close> the resolver returns the key \<^verbatim>\<open>-t1\<close>, and the pipeline goes on to
  the store and the origin.
\<close>

theorem C5_counterexample:
  "map_of (form E0 (bytes ''api_token='')) ''api_token'' = Some (QStr '''') \<and>
   getRequestId E0 req0 (bytes ''api_token='') = Inr ''-t1'' \<and>
   fst (onAPIRequest E0 req0 (bytes ''api_token='') w0) \<noteq> ErrorPage 403 \<and>
   trace (snd (onAPIRequest E0 req0 (bytes ''api_token='') w0)) \<noteq> []"
proof -
  have f: "map_of (form E0 (bytes ''api_token='')) ''api_token'' = Some (QStr '''')"
    by (simp add: form_empty_token)
  have k: "getRequestId E0 req0 (bytes ''api_token='') = Inr ''-t1''"
    using getRequestId_key [OF f token_req0] by simp
  have absent: "store w0 ''lock'' \<noteq> Some ''true''" "store w0 ''-t1'' = None"
    by (simp_all add: w0_def)
  have o: "origin E0 = (\<lambda>opts. Inr res0)"
    by (simp add: E0_def)
  have run: "makeAPIRequest E0 req0 (bytes ''api_token='') ''-t1'' w0 =
      (Inr (js_of_cacheObj (cacheObj_of res0)),
       w0\<lparr>store := (store w0)(''-t1'' \<mapsto> JSON_stringify (cacheObj_of res0)),
         trace := trace w0 @ [Get ''lock'', Get ''-t1'', Put ''-t1'' ''__REQUEST__'',
                    Fetch (fetchOptions req0 (bytes ''api_token='')),
                    Put ''-t1'' (JSON_stringify (cacheObj_of res0))]\<rparr>)"
    by (simp add: makeAPIRequest_absent [OF absent] o)
  have "fst (onAPIRequest E0 req0 (bytes ''api_token='') w0) \<noteq> ErrorPage 403 \<and>
      trace (snd (onAPIRequest E0 req0 (bytes ''api_token='') w0)) \<noteq> []"
    by (simp add: onAPIRequest_def k run get_def js_of_cacheObj_def units_def)
  with f k show ?thesis by simp
qed

text \<open>
  C5, amended. When the form body has no \<^verbatim>\<open>api_token\<close> field or the request has no
  \<^verbatim>\<open>cache-token\<close> header, identity resolution fails with \<^verbatim>\<open>forbidden\<close>, the pipeline
  answers 403 and the store is not touched. When both are present, empty or not, the
  cache key is the account token, the separator \<^verbatim>\<open>-\<close> and the session token.
\<close>

theorem C5_identity:
  "(map_of (form E body) ''api_token'' = None \<or> map_of (headers req) ''cache-token'' = None \<longrightarrow>
      getRequestId E req body = Inl (Error ''forbidden'') \<and>
      onAPIRequest E req body w = (ErrorPage 403, w)) \<and>
   (\<forall>u t. map_of (form E body) ''api_token'' = Some u \<and>
          map_of (headers req) ''cache-token'' = Some t \<longrightarrow>
      getRequestId E req body = Inr (qs_toString u @ ''-'' @ h_toString t))"
proof -
  have missing: "getRequestId E req body = Inl (Error ''forbidden'') \<and>
      onAPIRequest E req body w = (ErrorPage 403, w)"
    if "map_of (form E body) ''api_token'' = None \<or> map_of (headers req) ''cache-token'' = None"
  proof -
    from that have "getRequestId E req body = Inl (Error ''forbidden'')"
      by (rule getRequestId_forbidden)
    then show ?thesis
      by (simp add: onAPIRequest_def)
  qed
  have present: "getRequestId E req body = Inr (qs_toString u @ ''-'' @ h_toString t)"
    if "map_of (form E body) ''api_token'' = Some u \<and> map_of (headers req) ''cache-token'' = Some t"
    for u t
    using that by (simp add: getRequestId_key)
  show ?thesis
    using missing present by blast
qed

theorem C5_identity_witness:
  "map_of (form E0 (bytes ''x=1'')) ''api_token'' = None \<and>
   getRequestId E0 req0 (bytes ''x=1'') = Inl (Error ''forbidden'') \<and>
   onAPIRequest E0 req0 (bytes ''x=1'') w0 = (ErrorPage 403, w0) \<and>
   map_of (form E0 body0) ''api_token'' = Some (QStr ''u1'') \<and>
   map_of (headers req0) ''cache-token'' = Some (HStr ''t1'') \<and>
   getRequestId E0 req0 body0 = Inr ''u1-t1''"
  using C5_identity [of E0 "bytes ''x=1''" req0 w0] C5_identity [of E0 body0 req0 w0]
  by (simp add: form_no_token form_body0 token_req0)

text \<open>
  C6, as the specification has it, asks for a store write in every branch but the cache
  hit. A blocked key is answered with \<^verbatim>\<open>gone\<close> and nothing is written.
\<close>

theorem C6_counterexample:
  "fst (makeAPIRequest E0 req0 body0 ''u1-t1'' (w_entry ''__BLOCK__'')) = Inl (Error ''gone'') \<and>
   effects E0 req0 body0 ''u1-t1'' (w_entry ''__BLOCK__'') = [Get ''lock'', Get ''u1-t1''] \<and>
   writes (effects E0 req0 body0 ''u1-t1'' (w_entry ''__BLOCK__'')) = 0"
  by (simp add: run_blocked0 effects_cases store_w_entry writes_def)

text \<open>
  C6, amended. Only the branch of an absent key writes to the store. It reads the flag
  and the key, writes the PENDING sentinel, makes one request to the origin and writes
  once more, the serialized result or the BLOCKED sentinel. With the flag set the flag is
  read and nothing else happens; with an entry under the key (pending, blocked, or a
  payload that decodes or not) the flag and the key are read and nothing else happens.
\<close>

theorem C6_effects:
  "(store w ''lock'' = Some ''true'' \<longrightarrow> effects E req body rid w = [Get ''lock'']) \<and>
   (store w ''lock'' \<noteq> Some ''true'' \<and> store w rid \<noteq> None \<longrightarrow>
      effects E req body rid w = [Get ''lock'', Get rid]) \<and>
   (store w ''lock'' \<noteq> Some ''true'' \<and> store w rid = None \<longrightarrow>
      effects E req body rid w =
        [Get ''lock'', Get rid, Put rid ''__REQUEST__'', Fetch (fetchOptions req body),
         Put rid (case origin E (fetchOptions req body) of
                    Inr rr \<Rightarrow> JSON_stringify (cacheObj_of rr)
                  | Inl err \<Rightarrow> ''__BLOCK__'')]) \<and>
   writes (effects E req body rid w) =
     (if store w ''lock'' \<noteq> Some ''true'' \<and> store w rid = None then 2 else 0) \<and>
   fetches (effects E req body rid w) =
     (if store w ''lock'' \<noteq> Some ''true'' \<and> store w rid = None then 1 else 0) \<and>
   reads (effects E req body rid w) = (if store w ''lock'' = Some ''true'' then 1 else 2)"
  by (auto simp add: effects_cases writes_def fetches_def reads_def split: option.splits)

theorem C6_effects_witness:
  "store w0 ''lock'' \<noteq> Some ''true'' \<and> store w0 ''u1-t1'' = None \<and>
   effects E0 req0 body0 ''u1-t1'' w0 =
     [Get ''lock'', Get ''u1-t1'', Put ''u1-t1'' ''__REQUEST__'', Fetch (fetchOptions req0 body0),
      Put ''u1-t1'' (JSON_stringify (cacheObj_of res0))] \<and>
   writes (effects E0 req0 body0 ''u1-t1'' w0) = 2 \<and>
   fetches (effects E0 req0 body0 ''u1-t1'' w0) = 1 \<and>
   reads (effects E0 req0 body0 ''u1-t1'' w0) = 2 \<and>
   store (w_locked ''__BLOCK__'') ''lock'' = Some ''true'' \<and>
   effects E0 req0 body0 ''u1-t1'' (w_locked ''__BLOCK__'') = [Get ''lock''] \<and>
   store (w_entry ''__REQUEST__'') ''u1-t1'' \<noteq> None \<and>
   effects E0 req0 body0 ''u1-t1'' (w_entry ''__REQUEST__'') = [Get ''lock'', Get ''u1-t1'']"
proof -
  have h: "store w0 ''lock'' \<noteq> Some ''true''" "store w0 ''u1-t1'' = None"
    by (simp_all add: w0_def)
  have o: "origin E0 = (\<lambda>opts. Inr res0)"
    by (simp add: E0_def)
  show ?thesis
    using C6_effects [of w0 E0 req0 body0 "''u1-t1''"]
          C6_effects [of "w_locked ''__BLOCK__''" E0 req0 body0 "''u1-t1''"]
          C6_effects [of "w_entry ''__REQUEST__''" E0 req0 body0 "''u1-t1''"]
    by (simp add: h o store_w_locked store_w_entry writes_def fetches_def reads_def)
qed

text \<open>
  C7. The round trip fails for a response that carries the header \<^verbatim>\<open>Type: Buffer\<close>. The
  first request fetches it and stores its serialization. On the second request the
  reviver takes the header object, whose property \<^verbatim>\<open>type\<close> is \<^verbatim>\<open>Buffer\<close>, for a
  serialized Buffer and calls \<^verbatim>\<open>new Buffer(undefined)\<close>, which throws; the coordinator
  answers \<^verbatim>\<open>gone\<close> and the pipeline 410, instead of the stored response.
\<close>

theorem C7_type_header_not_restored:
  "fst (makeAPIRequest E_typed req0 body0 ''u1-t1'' w0) = Inr (js_of_cacheObj cache_typed) \<and>
   store (snd (makeAPIRequest E_typed req0 body0 ''u1-t1'' w0)) ''u1-t1'' =
     Some (JSON_stringify cache_typed) \<and>
   JSON_parse_reviver (reviver E_typed) (JSON_stringify cache_typed) = Inl TypeError \<and>
   fst (makeAPIRequest E_typed req0 body0 ''u1-t1''
          (snd (makeAPIRequest E_typed req0 body0 ''u1-t1'' w0))) = Inl (Error ''gone'') \<and>
   fst (onAPIRequest E_typed req0 body0 w0) =
     Reply (JNum 200) (js_of_headers [(''type'', HStr ''Buffer'')]) (JBuf (bytes ''ok'')) \<and>
   fst (onAPIRequest E_typed req0 body0 (snd (onAPIRequest E_typed req0 body0 w0))) =
     ErrorPage 410"
proof -
  have h: "store w0 ''lock'' \<noteq> Some ''true''" "store w0 ''u1-t1'' = None"
    by (simp_all add: w0_def)
  have o: "origin E_typed = (\<lambda>opts. Inr res_typed)"
    by (simp add: E_typed_def)
  let ?w = "w0\<lparr>store := (store w0)(''u1-t1'' \<mapsto> JSON_stringify cache_typed),
         trace := trace w0 @ [Get ''lock'', Get ''u1-t1'', Put ''u1-t1'' ''__REQUEST__'',
                    Fetch (fetchOptions req0 body0),
                    Put ''u1-t1'' (JSON_stringify cache_typed)]\<rparr>"
  have first: "makeAPIRequest E_typed req0 body0 ''u1-t1'' w0 =
      (Inr (js_of_cacheObj cache_typed), ?w)"
    by (simp add: makeAPIRequest_absent [OF h] o cacheObj_res_typed)
  have second: "makeAPIRequest E_typed req0 body0 ''u1-t1'' ?w =
      (Inl (Error ''gone''), ?w\<lparr>trace := trace ?w @ [Get ''lock'', Get ''u1-t1'']\<rparr>)"
    by (subst makeAPIRequest_ready [where d = "JSON_stringify cache_typed"])
       (simp_all add: w0_def JSON_stringify_not_sentinel decode_typed)
  have reply1: "onAPIRequest E_typed req0 body0 w0 =
      (Reply (JNum 200) (js_of_headers [(''type'', HStr ''Buffer'')]) (JBuf (bytes ''ok'')), ?w)"
    by (rule onAPIRequest_reply [OF rid_typed first])
       (simp_all add: get_def js_of_cacheObj_def units_def cache_typed_def)
  have reply2: "onAPIRequest E_typed req0 body0 ?w =
      (ErrorPage (errCode (Error ''gone'')), ?w\<lparr>trace := trace ?w @ [Get ''lock'', Get ''u1-t1'']\<rparr>)"
    by (rule onAPIRequest_error [OF rid_typed second])
  show ?thesis
    by (simp add: first second reply1 reply2 decode_typed)
qed




text \<open>
  C9. What the coordinator writes under a key is one of the two sentinels or the
  serialization of a \<^verbatim>\<open>cacheObj\<close>. The serialization begins with a brace, so it is neither
  sentinel (nor the flag's \<^verbatim>\<open>true\<close>). After a fresh fetch the key holds the serialization,
  and any later request for the key, as long as the entry stands and the flag is not set,
  takes the branch that decodes the entry, not the branch of a pending or a blocked key.
\<close>

theorem C9_written_values:
  "hd (JSON_stringify c) = CHR ''{'' \<and>
   JSON_stringify c \<noteq> ''__REQUEST__'' \<and> JSON_stringify c \<noteq> ''__BLOCK__'' \<and>
   (\<forall>k v. Put k v \<in> set (effects E req body rid w) \<longrightarrow>
      k = rid \<and> (v = ''__REQUEST__'' \<or> v = ''__BLOCK__'' \<or> (\<exists>rr. v = JSON_stringify (cacheObj_of rr)))) \<and>
   (\<forall>rr. store w ''lock'' \<noteq> Some ''true'' \<and> store w rid = None \<and>
         origin E (fetchOptions req body) = Inr rr \<longrightarrow>
      store (snd (makeAPIRequest E req body rid w)) rid = Some (JSON_stringify (cacheObj_of rr)) \<and>
      (\<forall>E' req' body' w'.
         store w' ''lock'' \<noteq> Some ''true'' \<and>
         store w' rid = store (snd (makeAPIRequest E req body rid w)) rid \<longrightarrow>
         makeAPIRequest E' req' body' rid w' =
           (case JSON_parse_reviver (reviver E') (JSON_stringify (cacheObj_of rr)) of
              Inr v \<Rightarrow> (Inr v, w'\<lparr>trace := trace w' @ [Get ''lock'', Get rid]\<rparr>)
            | Inl err \<Rightarrow> (Inl (Error ''gone''), w'\<lparr>trace := trace w' @ [Get ''lock'', Get rid]\<rparr>))))"
proof -
  have brace: "hd (JSON_stringify c) = CHR ''{''"
    by (subst JSON_stringify_brace) simp
  have puts: "k = rid \<and> (v = ''__REQUEST__'' \<or> v = ''__BLOCK__'' \<or>
      (\<exists>rr. v = JSON_stringify (cacheObj_of rr)))"
    if "Put k v \<in> set (effects E req body rid w)" for k v
    using that by (auto simp add: effects_cases split: if_splits option.splits sum.splits)
  have later: "store (snd (makeAPIRequest E req body rid w)) rid =
        Some (JSON_stringify (cacheObj_of rr)) \<and>
      (\<forall>E' req' body' w'.
         store w' ''lock'' \<noteq> Some ''true'' \<and>
         store w' rid = store (snd (makeAPIRequest E req body rid w)) rid \<longrightarrow>
         makeAPIRequest E' req' body' rid w' =
           (case JSON_parse_reviver (reviver E') (JSON_stringify (cacheObj_of rr)) of
              Inr v \<Rightarrow> (Inr v, w'\<lparr>trace := trace w' @ [Get ''lock'', Get rid]\<rparr>)
            | Inl err \<Rightarrow> (Inl (Error ''gone''), w'\<lparr>trace := trace w' @ [Get ''lock'', Get rid]\<rparr>)))"
    if "store w ''lock'' \<noteq> Some ''true'' \<and> store w rid = None \<and>
        origin E (fetchOptions req body) = Inr rr" for rr
  proof -
    from that have stored: "store (snd (makeAPIRequest E req body rid w)) rid =
        Some (JSON_stringify (cacheObj_of rr))"
      by (simp add: makeAPIRequest_absent)
    then show ?thesis
      by (simp add: makeAPIRequest_ready JSON_stringify_not_sentinel)
  qed
  show ?thesis
    using brace puts later JSON_stringify_not_sentinel(1,2) [of c] by blast
qed

theorem C9_written_values_witness:
  "Put ''u1-t1'' (JSON_stringify cache0) \<in> set (effects E0 req0 body0 ''u1-t1'' w0) \<and>
   hd (JSON_stringify cache0) = CHR ''{'' \<and>
   store w0 ''lock'' \<noteq> Some ''true'' \<and> store w0 ''u1-t1'' = None \<and>
   origin E0 (fetchOptions req0 body0) = Inr res0 \<and>
   store (snd (makeAPIRequest E0 req0 body0 ''u1-t1'' w0)) ''u1-t1'' =
     Some (JSON_stringify cache0) \<and>
   makeAPIRequest E0 req0 body0 ''u1-t1'' (w_entry (JSON_stringify cache0)) =
     (Inr (js_of_cacheObj cache0),
      (w_entry (JSON_stringify cache0))\<lparr>trace := [Get ''lock'', Get ''u1-t1'']\<rparr>)"
proof -
  have h: "store w0 ''lock'' \<noteq> Some ''true''" "store w0 ''u1-t1'' = None"
    by (simp_all add: w0_def)
  have o: "origin E0 (fetchOptions req0 body0) = Inr res0"
    by (simp add: E0_def)
  have p: "Put ''u1-t1'' (JSON_stringify cache0) \<in> set (effects E0 req0 body0 ''u1-t1'' w0)"
    by (simp add: effects_cases h o cacheObj_res0)
  have t: "trace (w_entry (JSON_stringify cache0)) = []"
    by (simp add: w_entry_def)
  have "store (snd (makeAPIRequest E0 req0 body0 ''u1-t1'' w0)) ''u1-t1'' =
      Some (JSON_stringify cache0) \<and>
    makeAPIRequest E0 req0 body0 ''u1-t1'' (w_entry (JSON_stringify cache0)) =
     (Inr (js_of_cacheObj cache0),
      (w_entry (JSON_stringify cache0))\<lparr>trace := [Get ''lock'', Get ''u1-t1'']\<rparr>)"
    using C9_written_values [of cache0 E0 req0 body0 "''u1-t1''" w0] h o
    by (simp add: cacheObj_res0 store_w_entry decode_cache0 t)
  moreover have "hd (JSON_stringify cache0) = CHR ''{''"
    using C9_written_values [of cache0 E0 req0 body0 "''u1-t1''" w0] by (rule conjunct1)
  ultimately show ?thesis
    using h o p by simp
qed



end
